theory Spec2Isabelle
  imports Complex_Main "HOL-Library.AList"
begin

section \<open>Shared conventions\<close>

text \<open>
  Python objects that are shared by reference and mutated in place (\<open>Player\<close>,
  \<open>Team\<close>) live in explicit stores: a player reference is a natural number and
  the player heap maps it to the record of the object's fields; likewise for teams.
  Neither class defines \<open>__eq__\<close>, so equality of objects is equality of
  references. Numbers are Python ints and floats; they are modelled as exact reals
  (overflow and rounding of floats are outside the model). Exceptions are values of
  the type \<open>error\<close>, and a function that can raise returns \<open>error + 'a\<close>.
\<close>

type_synonym pref = nat
type_synonym tref = nat

datatype error = TypeError | ZeroDivisionError | ValueError | IndexError

text \<open>Sequencing of computations that may raise.\<close>

definition bind_err :: "error + 'a \<Rightarrow> ('a \<Rightarrow> error + 'b) \<Rightarrow> error + 'b" where
  "bind_err m f = (case m of Inl e \<Rightarrow> Inl e | Inr x \<Rightarrow> f x)"

text \<open>Truthiness of an optional number, as in \<open>if self.nudge:\<close>.\<close>

definition truthy :: "real option \<Rightarrow> bool" where
  "truthy v = (case v of None \<Rightarrow> False | Some x \<Rightarrow> x \<noteq> 0)"

section \<open>models.py\<close>

subsection \<open>GameOutcome, Player\<close>

datatype GameOutcome = P1_WIN | P2_WIN | DRAW

record Player =
  elo :: real
  name :: int
  last_played :: real
  last_played_ns :: real
  god :: bool
  true_rating :: real
  win :: nat
  lose :: nat

text \<open>\<open>Player.__init__\<close>; the two clock readings are passed in.\<close>

definition Player_init :: "int \<Rightarrow> real \<Rightarrow> real \<Rightarrow> bool \<Rightarrow> real \<times> real \<Rightarrow> Player" where
  "Player_init nm tr e g clk =
     \<lparr>elo = e, name = nm, last_played = fst clk, last_played_ns = snd clk,
      god = g, true_rating = tr, win = 0, lose = 0\<rparr>"

definition rating :: "Player \<Rightarrow> real" where
  "rating self = 10 powr (elo self / 400)"

definition ratio :: "Player \<Rightarrow> real" where
  "ratio self =
     (let total = win self + lose self
      in if total > 0 then real (win self) / real total else 0)"

definition get_elo_delta :: "Player \<Rightarrow> Player \<Rightarrow> GameOutcome \<Rightarrow> real \<Rightarrow> real" where
  "get_elo_delta self other result k_factor =
     (let rating_1 = rating self;
          rating_2 = rating other;
          expected_1 = rating_1 / (rating_1 + rating_2);
          score_1 = (if result = DRAW then 1 / 2
                     else (if result = P1_WIN then 1 else 0))
      in k_factor * (score_1 - expected_1))"

text \<open>
  \<open>Player.nudge\<close>. The argument \<open>r\<close> is the value that
  \<open>random.randint(0, 1)\<close> yields when it is called (for a player that is not a god).
\<close>

definition Player_nudge :: "int \<Rightarrow> real \<Rightarrow> Player \<Rightarrow> Player" where
  "Player_nudge r n self =
     (let direction = (if god self then 0 else r);
          tr = (if direction \<noteq> 0 then true_rating self - n else true_rating self + n)
      in self\<lparr>true_rating := max 0 tr\<rparr>)"

definition add_win :: "Player \<Rightarrow> Player" where
  "add_win self = self\<lparr>win := win self + 1\<rparr>"

definition add_lose :: "Player \<Rightarrow> Player" where
  "add_lose self = self\<lparr>lose := lose self + 1\<rparr>"

text \<open>
  The outcome seen from the other side of a comparison (the \<open>invert\<close> of the
  specification; the source has no such function).
\<close>

fun invert :: "GameOutcome \<Rightarrow> GameOutcome" where
  "invert P1_WIN = P2_WIN"
| "invert P2_WIN = P1_WIN"
| "invert DRAW = DRAW"

text \<open>A run of nudges: each entry is the random draw and the magnitude of one call.\<close>

definition nudges :: "(int \<times> real) list \<Rightarrow> Player \<Rightarrow> Player" where
  "nudges xs p = fold (\<lambda>(r, n). Player_nudge r n) xs p"

subsection \<open>Team\<close>

text \<open>
  \<open>Team.__init__\<close> stores \<open>set(players)\<close>. The record keeps the members as a
  duplicate-free list, which also fixes the order in which the set is iterated
  (Python leaves that order to the hash table; no property below depends on it).
\<close>

record Team =
  players :: "pref list"
  score :: "int option"

definition Team_init :: "pref list \<Rightarrow> Team" where
  "Team_init ps = \<lparr>players = remdups ps, score = None\<rparr>"

text \<open>
  \<open>Team.compare\<close>. A score that was never assigned is \<open>None\<close>, and ordering
  \<open>None\<close> raises \<open>TypeError\<close>.
\<close>

definition compare :: "Team \<Rightarrow> Team \<Rightarrow> error + GameOutcome" where
  "compare self other =
     (case score self of
        None \<Rightarrow> Inl TypeError
      | Some a \<Rightarrow>
          (case score other of
             None \<Rightarrow> Inl TypeError
           | Some b \<Rightarrow>
               Inr (if a > b then P1_WIN else if a < b then P2_WIN else DRAW)))"

subsection \<open>Game\<close>

text \<open>The random \<open>tag\<close> of a game is used for logging only and is left out.\<close>

record Game =
  teams :: "tref list"
  nudge :: "real option"
  god_boost :: real

type_synonym heap = "pref \<Rightarrow> Player"
type_synonym theap = "tref \<Rightarrow> Team"
type_synonym deltas = "(pref \<times> real list) list"

definition Game_init :: "tref list \<Rightarrow> real option \<Rightarrow> real \<Rightarrow> Game" where
  "Game_init ts n gb = \<lparr>teams = ts, nudge = n, god_boost = gb\<rparr>"

text \<open>\<open>Game.players(ignore_team)\<close>, the generator, as the list it yields.\<close>

definition Game_players :: "theap \<Rightarrow> Game \<Rightarrow> tref option \<Rightarrow> (tref \<times> pref) list" where
  "Game_players th g ignore_team =
     concat (map (\<lambda>team. map (\<lambda>player. (team, player)) (players (th team)))
                 (filter (\<lambda>team. Some team \<noteq> ignore_team) (teams g)))"

text \<open>
  \<open>delta[player].append(x)\<close> on the \<open>defaultdict(list)\<close>: the dictionary is an
  association list in insertion order.
\<close>

definition deltas_of :: "deltas \<Rightarrow> pref \<Rightarrow> real list" where
  "deltas_of d p = (case map_of d p of None \<Rightarrow> [] | Some xs \<Rightarrow> xs)"

definition delta_append :: "deltas \<Rightarrow> pref \<Rightarrow> real \<Rightarrow> deltas" where
  "delta_append d p x = AList.update p (deltas_of d p @ [x]) d"

text \<open>
  The first loop of \<open>Game.update_elo\<close>: the inner loop over the opposing players
  (\<open>rate_against\<close>) and the outer loop over all players (\<open>collect_deltas\<close>). The
  state is the player heap and the dictionary \<open>delta\<close>. An exception ends the
  call; the state at that point is not returned.
\<close>

fun rate_against ::
  "theap \<Rightarrow> real \<Rightarrow> tref \<Rightarrow> pref \<Rightarrow> (tref \<times> pref) list \<Rightarrow> heap \<times> deltas
     \<Rightarrow> error + heap \<times> deltas" where
  "rate_against th k team player [] s = Inr s"
| "rate_against th k team player ((other_team, other_player) # rest) (h, d) =
     (case compare (th team) (th other_team) of
        Inl e \<Rightarrow> Inl e
      | Inr outcome \<Rightarrow>
          (let h1 = (if outcome = P1_WIN then h(player := add_win (h player))
                     else if outcome = P2_WIN then h(player := add_lose (h player))
                     else h);
               d1 = delta_append d player
                      (get_elo_delta (h1 player) (h1 other_player) outcome k)
           in rate_against th k team player rest (h1, d1)))"

fun collect_deltas ::
  "theap \<Rightarrow> real \<Rightarrow> Game \<Rightarrow> (tref \<times> pref) list \<Rightarrow> heap \<times> deltas
     \<Rightarrow> error + heap \<times> deltas" where
  "collect_deltas th k g [] s = Inr s"
| "collect_deltas th k g ((team, player) # rest) s =
     bind_err (rate_against th k team player (Game_players th g (Some team)) s)
              (collect_deltas th k g rest)"

text \<open>
  The second loop of \<open>Game.update_elo\<close>, over \<open>delta.items()\<close>. \<open>rs j\<close> is the
  random direction offered to the \<open>j\<close>-th player of the loop.
\<close>

fun apply_deltas :: "real option \<Rightarrow> (nat \<Rightarrow> int) \<Rightarrow> nat \<Rightarrow> deltas \<Rightarrow> heap \<Rightarrow> error + heap" where
  "apply_deltas ng rs j [] h = Inr h"
| "apply_deltas ng rs j ((player, player_deltas) # rest) h =
     (if length player_deltas = 0 then Inl ZeroDivisionError
      else
        (let p1 = (h player)\<lparr>elo := elo (h player)
                      + sum_list player_deltas / real (length player_deltas)\<rparr>;
             p2 = (case ng of
                     None \<Rightarrow> p1
                   | Some n \<Rightarrow> if n \<noteq> 0 then Player_nudge (rs j) n p1 else p1)
         in apply_deltas ng rs (j + 1) rest (h(player := p2))))"

definition update_elo :: "theap \<Rightarrow> Game \<Rightarrow> real \<Rightarrow> (nat \<Rightarrow> int) \<Rightarrow> heap \<Rightarrow> error + heap" where
  "update_elo th g k_factor rs h =
     bind_err (collect_deltas th k_factor g (Game_players th g None) (h, []))
              (\<lambda>(h1, d). apply_deltas (nudge g) rs 0 d h1)"

subsection \<open>Vocabulary for the properties of Game.update\_elo\<close>

text \<open>
  The pairs of a player and an opposing player that the nested loops of
  \<open>update_elo\<close> visit, in the order of the visit.
\<close>

definition opposing_pairs :: "theap \<Rightarrow> Game \<Rightarrow> ((tref \<times> pref) \<times> (tref \<times> pref)) list" where
  "opposing_pairs th g =
     concat (map (\<lambda>tp. map (\<lambda>opp. (tp, opp)) (Game_players th g (Some (fst tp))))
                 (Game_players th g None))"

text \<open>The outcome of a comparison of two teams that does not raise.\<close>

definition outcome_of :: "theap \<Rightarrow> tref \<Rightarrow> tref \<Rightarrow> GameOutcome" where
  "outcome_of th t t' = (case compare (th t) (th t') of Inr outcome \<Rightarrow> outcome | Inl e \<Rightarrow> DRAW)"

text \<open>
  The deltas of player \<open>q\<close> over the visited pairs, every rating read from the one
  heap \<open>h\<close>.
\<close>

definition deltas_from :: "theap \<Rightarrow> Game \<Rightarrow> real \<Rightarrow> heap \<Rightarrow> pref \<Rightarrow> real list" where
  "deltas_from th g k h q =
     map (\<lambda>pr. get_elo_delta (h q) (h (snd (snd pr)))
                 (outcome_of th (fst (fst pr)) (fst (snd pr))) k)
         (filter (\<lambda>pr. snd (fst pr) = q) (opposing_pairs th g))"

text \<open>How many of the visited pairs with first player \<open>q\<close> have the given outcome.\<close>

definition pairs_with :: "theap \<Rightarrow> Game \<Rightarrow> GameOutcome \<Rightarrow> pref \<Rightarrow> nat" where
  "pairs_with th g outcome q =
     length (filter (\<lambda>pr. snd (fst pr) = q
                       \<and> compare (th (fst (fst pr))) (th (fst (snd pr))) = Inr outcome)
                    (opposing_pairs th g))"

text \<open>Every list stored in the dictionary \<open>delta\<close> has an element.\<close>

definition nonempty_entries :: "deltas \<Rightarrow> bool" where
  "nonempty_entries d = list_all (\<lambda>e. snd e \<noteq> []) d"

text \<open>
  The game has pairwise distinct teams of \<open>s\<close> distinct players each, and player
  \<open>q\<close> is on team \<open>t\<close> and on no other team of the game.
\<close>

definition plays_in :: "theap \<Rightarrow> Game \<Rightarrow> nat \<Rightarrow> tref \<Rightarrow> pref \<Rightarrow> bool" where
  "plays_in th g s t q =
     (distinct (teams g) \<and> t \<in> set (teams g) \<and> q \<in> set (players (th t))
      \<and> list_all (\<lambda>t'. distinct (players (th t')) \<and> length (players (th t')) = s
                        \<and> (t' = t \<or> q \<notin> set (players (th t')))) (teams g))"

subsection \<open>Game.compute\_score\<close>

definition team_strength :: "heap \<Rightarrow> Game \<Rightarrow> Team \<Rightarrow> error + real" where
  "team_strength h g team =
     (let tr = (if truthy (nudge g) then map (\<lambda>p. true_rating (h p)) (players team)
                else map (\<lambda>p. elo (h p)) (players team));
          nb_god = length (filter (\<lambda>p. god (h p)) (players team))
      in if length tr = 0 then Inl ZeroDivisionError
         else (let avg = sum_list tr / real (length tr)
               in Inr (avg + avg * god_boost g * real nb_god)))"

text \<open>The first loop: the dictionary \<open>teams_elo\<close>, keyed by team object.\<close>

fun strengths ::
  "heap \<Rightarrow> theap \<Rightarrow> Game \<Rightarrow> tref list \<Rightarrow> (tref \<times> real) list \<Rightarrow> error + (tref \<times> real) list" where
  "strengths h th g [] teams_elo = Inr teams_elo"
| "strengths h th g (team # rest) teams_elo =
     (case team_strength h g (th team) of
        Inl e \<Rightarrow> Inl e
      | Inr w \<Rightarrow> strengths h th g rest (AList.update team w teams_elo))"

text \<open>
  Modelled from the Python standard library (it is not code of this repository):
  \<open>itertools.accumulate\<close>, \<open>bisect.bisect_right\<close> and \<open>random.choices\<close> with
  \<open>k=1\<close> (as of Python 3.9, which refuses a total weight that is not positive).
  \<open>u\<close> is the value of \<open>random()\<close>, a number in \<open>[0, 1)\<close>.
\<close>

fun accumulate_from :: "real \<Rightarrow> real list \<Rightarrow> real list" where
  "accumulate_from acc [] = []"
| "accumulate_from acc (x # xs) = (acc + x) # accumulate_from (acc + x) xs"

fun accumulate :: "real list \<Rightarrow> real list" where
  "accumulate [] = []"
| "accumulate (x # xs) = x # accumulate_from x xs"

function bisect_right :: "real list \<Rightarrow> real \<Rightarrow> nat \<Rightarrow> nat \<Rightarrow> nat" where
  "bisect_right a x lo hi =
     (if lo < hi
      then (let mid = (lo + hi) div 2
            in if x < a ! mid then bisect_right a x lo mid
               else bisect_right a x (mid + 1) hi)
      else lo)"
  by pat_completeness auto
termination
  by (relation "measure (\<lambda>(a, x, lo, hi). hi - lo)") auto

declare bisect_right.simps [simp del]

definition choices :: "real \<Rightarrow> 'a list \<Rightarrow> real list \<Rightarrow> error + 'a" where
  "choices u population weights =
     (let n = length population;
          cum_weights = accumulate weights
      in if length cum_weights \<noteq> n then Inl ValueError
         else if cum_weights = [] then Inl IndexError
         else (let total = last cum_weights
               in if total \<le> 0 then Inl ValueError
                  else Inr (population ! bisect_right cum_weights (u * total) 0 (n - 1))))"

text \<open>
  The second loop: one weighted draw per team of the game, each drawn team popped
  from \<open>teams_elo\<close> and appended to \<open>results\<close>. \<open>us j\<close> is the value of
  \<open>random()\<close> in the \<open>j\<close>-th draw.
\<close>

fun draw_teams ::
  "(nat \<Rightarrow> real) \<Rightarrow> nat \<Rightarrow> nat \<Rightarrow> (tref \<times> real) list \<Rightarrow> tref list \<Rightarrow> error + tref list" where
  "draw_teams us j 0 teams_elo results = Inr results"
| "draw_teams us j (Suc n) teams_elo results =
     (case choices (us j) (map fst teams_elo) (map snd teams_elo) of
        Inl e \<Rightarrow> Inl e
      | Inr team \<Rightarrow>
          draw_teams us (j + 1) n (AList.delete team teams_elo) (results @ [team]))"

text \<open>The draw order \<open>results\<close> of a game: the first two loops together.\<close>

definition draw_order :: "heap \<Rightarrow> theap \<Rightarrow> Game \<Rightarrow> (nat \<Rightarrow> real) \<Rightarrow> error + tref list" where
  "draw_order h th g us =
     bind_err (strengths h th g (teams g) [])
              (\<lambda>teams_elo. draw_teams us 0 (length (teams g)) teams_elo [])"

text \<open>The last loop: \<open>for score, team in enumerate(results[::-1])\<close>.\<close>

fun assign_scores :: "int \<Rightarrow> tref list \<Rightarrow> theap \<Rightarrow> theap" where
  "assign_scores i [] th = th"
| "assign_scores i (team # rest) th =
     assign_scores (i + 1) rest (th(team := (th team)\<lparr>score := Some i\<rparr>))"

definition compute_score :: "heap \<Rightarrow> Game \<Rightarrow> (nat \<Rightarrow> real) \<Rightarrow> theap \<Rightarrow> error + theap" where
  "compute_score h g us th =
     bind_err (draw_order h th g us)
              (\<lambda>results. Inr (assign_scores 0 (rev results) th))"

section \<open>server.py\<close>

subsection \<open>PlayerStore\<close>

datatype PlayerStatus = IN_GAME | WAITING

text \<open>
  \<open>PlayerStore.players\<close> is a dictionary from player objects to their status. It is
  an association list in insertion order, since \<open>get\<close> returns the players in the
  order of the dictionary.
\<close>

type_synonym PlayerStore = "(pref \<times> PlayerStatus) list"

definition PlayerStore_init :: "pref list \<Rightarrow> PlayerStore" where
  "PlayerStore_init ps = fold (\<lambda>p d. AList.update p WAITING d) ps []"

definition PlayerStore_get :: "PlayerStore \<Rightarrow> PlayerStatus \<Rightarrow> pref list" where
  "PlayerStore_get ps wanted_status = map fst (filter (\<lambda>e. snd e = wanted_status) ps)"

definition PlayerStore_get_all :: "PlayerStore \<Rightarrow> pref list" where
  "PlayerStore_get_all ps = map fst ps"

text \<open>
  \<open>PlayerStore.set\<close>. The state is the dictionary and the player heap; \<open>clk i\<close> is
  the pair of readings of \<open>datetime.now()\<close> and \<open>perf_counter()\<close> taken for the
  \<open>i\<close>-th stamp.
\<close>

fun PlayerStore_set ::
  "(nat \<Rightarrow> real \<times> real) \<Rightarrow> nat \<Rightarrow> pref list \<Rightarrow> PlayerStatus \<Rightarrow> PlayerStore \<times> heap
     \<Rightarrow> PlayerStore \<times> heap" where
  "PlayerStore_set clk i [] status s = s"
| "PlayerStore_set clk i (player # rest) status (ps, h) =
     PlayerStore_set clk (i + 1) rest status
       (AList.update player status ps,
        h(player := (h player)\<lparr>last_played := fst (clk i), last_played_ns := snd (clk i)\<rparr>))"

subsection \<open>MatchMakerServer.find\_players\<close>

text \<open>The slice \<open>xs[:k]\<close> for an integer \<open>k\<close>; a negative \<open>k\<close> counts from the end.\<close>

definition slice_to :: "'a list \<Rightarrow> int \<Rightarrow> 'a list" where
  "slice_to xs k = (if 0 \<le> k then take (nat k) xs else take (length xs - nat (- k)) xs)"

text \<open>The slice \<open>xs[::k]\<close> for a step \<open>k \<ge> 1\<close>: the elements at the indices 0, k, 2k, ...\<close>

fun stride :: "nat \<Rightarrow> 'a list \<Rightarrow> 'a list" where
  "stride k [] = []"
| "stride k (x # xs) = x # stride k (drop (k - 1) xs)"

text \<open>
  The loop \<open>for player in team: pending_players.remove(player)\<close>; \<open>list.remove\<close>
  deletes the first occurrence and raises \<open>ValueError\<close> when there is none.
\<close>

fun remove_players :: "pref list \<Rightarrow> pref list \<Rightarrow> error + pref list" where
  "remove_players pending_players [] = Inr pending_players"
| "remove_players pending_players (player # rest) =
     (if player \<in> set pending_players
      then remove_players (remove1 player pending_players) rest
      else Inl ValueError)"

text \<open>
  The loop \<open>for i in range(num_teams)\<close> that builds the teams. \<open>form_teams k\<close> runs
  the last \<open>k\<close> iterations, the first of which has the step
  \<open>num_teams - i = k\<close>.
\<close>

fun form_teams :: "nat \<Rightarrow> pref list \<Rightarrow> error + pref list list" where
  "form_teams 0 pending_players = Inr []"
| "form_teams (Suc k) pending_players =
     (let team = stride (Suc k) pending_players
      in case remove_players pending_players team of
           Inl e \<Rightarrow> Inl e
         | Inr remaining \<Rightarrow>
             (case form_teams k remaining of
                Inl e \<Rightarrow> Inl e
              | Inr formed \<Rightarrow> Inr (team # formed)))"

text \<open>
  \<open>find_players\<close>. \<open>list.sort\<close> is stable, as \<open>sort_key\<close> is; \<open>pop(0)\<close> on an
  empty list raises \<open>IndexError\<close>; \<open>range(num_teams)\<close> is empty for
  \<open>num_teams \<le> 0\<close>.
\<close>

definition find_players :: "heap \<Rightarrow> PlayerStore \<Rightarrow> int \<Rightarrow> int \<Rightarrow> error + pref list list option" where
  "find_players h ps num_per_teams num_teams =
     (let waiting_players = sort_key (\<lambda>x. last_played (h x)) (PlayerStore_get ps WAITING)
      in if int (length waiting_players) < num_per_teams * num_teams then Inr None
         else (case waiting_players of
                 [] \<Rightarrow> Inl IndexError
               | first_player # waiting_rest \<Rightarrow>
                   (let by_mmr = sort_key (\<lambda>x. \<bar>elo (h x) - elo (h first_player)\<bar>) waiting_rest;
                        pending_players =
                          [first_player] @ slice_to by_mmr (num_per_teams * num_teams - 1);
                        by_elo = sort_key (\<lambda>x. elo (h x)) pending_players
                    in case form_teams (nat num_teams) by_elo of
                         Inl e \<Rightarrow> Inl e
                       | Inr formed \<Rightarrow> Inr (Some formed))))"

text \<open>
  The longest-waiting player of the specification: the first player of the
  dictionary among the waiting players with the least \<open>last_played\<close>.
\<close>

definition longest_waiting :: "heap \<Rightarrow> PlayerStore \<Rightarrow> pref" where
  "longest_waiting h ps = arg_min_list (\<lambda>x. last_played (h x)) (PlayerStore_get ps WAITING)"

subsection \<open>MatchMakerServer\<close>

text \<open>
  A game task created by \<open>asyncio.create_task(game.run(...))\<close> is pending, or done
  with or without an exception.
\<close>

datatype task = Pending | Done "error option"

text \<open>
  The server object together with the two object stores that its methods read and
  write. \<open>store\<close> is \<open>self.players\<close>, \<open>server_nudge\<close> and \<open>server_god_boost\<close> are
  \<open>self.nudge\<close> and \<open>self.god_boost\<close>; \<open>next_team\<close> is the reference that the next
  \<open>Team\<close> object gets. The dictionary \<open>active_games\<close> is keyed by game objects,
  every key is a fresh object, so it is the list of its items. The \<open>LivePlot\<close>
  (matplotlib reporting) and its calls are left out.
\<close>

record MatchMakerServer =
  pheap :: heap
  teap :: theap
  next_team :: tref
  store :: PlayerStore
  team_size :: int
  team_number :: int
  k_factor :: real
  server_nudge :: "real option"
  game_duration :: real
  active_games :: "(Game \<times> task) list"
  max_round :: "int option"
  server_god_boost :: real

record games_settings =
  gs_team_size :: int
  gs_team_number :: int
  gs_k_factor :: real
  gs_nudge :: "real option"
  gs_game_duration :: real

text \<open>\<open>MatchMakerServer.__init__\<close>: it stores the settings and checks nothing.\<close>

definition MatchMakerServer_init ::
  "heap \<Rightarrow> pref list \<Rightarrow> games_settings \<Rightarrow> int option \<Rightarrow> real \<Rightarrow> MatchMakerServer" where
  "MatchMakerServer_init h ps gs mr gb =
     \<lparr>pheap = h, teap = (\<lambda>_. Team_init []), next_team = 0,
      store = PlayerStore_init ps,
      team_size = gs_team_size gs, team_number = gs_team_number gs,
      k_factor = gs_k_factor gs, server_nudge = gs_nudge gs,
      game_duration = gs_game_duration gs, active_games = [],
      max_round = mr, server_god_boost = gb\<rparr>"

text \<open>\<open>[Team(players=players) for players in players_teams]\<close> with fresh objects.\<close>

fun new_teams :: "tref \<Rightarrow> pref list list \<Rightarrow> theap \<Rightarrow> tref list \<times> theap" where
  "new_teams r [] th = ([], th)"
| "new_teams r (ps # rest) th =
     (let (rs, th') = new_teams (r + 1) rest (th(r := Team_init ps)) in (r # rs, th'))"

definition try_create_game :: "(nat \<Rightarrow> real \<times> real) \<Rightarrow> MatchMakerServer \<Rightarrow> error + MatchMakerServer" where
  "try_create_game clk s =
     (case find_players (pheap s) (store s) (team_size s) (team_number s) of
        Inl e \<Rightarrow> Inl e
      | Inr None \<Rightarrow> Inr s
      | Inr (Some players_teams) \<Rightarrow>
          (let (trefs, th) = new_teams (next_team s) players_teams (teap s);
               game = Game_init trefs (server_nudge s) (server_god_boost s);
               (ps, h) = PlayerStore_set clk 0 (map snd (Game_players th game None)) IN_GAME
                           (store s, pheap s)
           in Inr (s\<lparr>pheap := h, teap := th,
                      next_team := next_team s + length players_teams,
                      store := ps,
                      active_games := active_games s @ [(game, Pending)]\<rparr>)))"

text \<open>
  What the loop of \<open>run\<close> takes from outside in one tick: the clock readings for
  the stamps of \<open>try_create_game\<close> and, for the \<open>i\<close>-th active game, those of its
  release; the random directions of the nudges of the \<open>i\<close>-th active game; whether
  the sleep of the \<open>i\<close>-th active task elapses during the tick's own sleep, and the
  values of \<open>random()\<close> in its \<open>compute_score\<close>.
\<close>

record tick_env =
  create_clock :: "nat \<Rightarrow> real \<times> real"
  release_clock :: "nat \<Rightarrow> nat \<Rightarrow> real \<times> real"
  nudge_dirs :: "nat \<Rightarrow> nat \<Rightarrow> int"
  elapses :: "nat \<Rightarrow> bool"
  draws :: "nat \<Rightarrow> nat \<Rightarrow> real"

text \<open>
  The loop of \<open>handle_games\<close> over the items of \<open>active_games\<close>, from item \<open>i\<close> on.
  The state is the dictionary of the store, the player heap and the number of
  finished games so far. \<open>task.result()\<close> re-raises the exception of a failed task.
\<close>

fun reap_games ::
  "tick_env \<Rightarrow> theap \<Rightarrow> real \<Rightarrow> nat \<Rightarrow> (Game \<times> task) list \<Rightarrow> PlayerStore \<times> heap \<times> nat
     \<Rightarrow> error + PlayerStore \<times> heap \<times> nat" where
  "reap_games env th k i [] s = Inr s"
| "reap_games env th k i ((game, Pending) # rest) s = reap_games env th k (i + 1) rest s"
| "reap_games env th k i ((game, Done (Some e)) # rest) s = Inl e"
| "reap_games env th k i ((game, Done None) # rest) (ps, h, finished) =
     (case update_elo th game k (nudge_dirs env i) h of
        Inl e \<Rightarrow> Inl e
      | Inr h1 \<Rightarrow>
          (let (ps2, h2) = PlayerStore_set (release_clock env i) 0
                             (map snd (Game_players th game None)) WAITING (ps, h1)
           in reap_games env th k (i + 1) rest (ps2, h2, finished + 1)))"

definition handle_games :: "tick_env \<Rightarrow> MatchMakerServer \<Rightarrow> error + MatchMakerServer \<times> nat" where
  "handle_games env s =
     (case reap_games env (teap s) (k_factor s) 0 (active_games s) (store s, pheap s, 0) of
        Inl e \<Rightarrow> Inl e
      | Inr (ps, h, finished) \<Rightarrow>
          Inr (s\<lparr>store := ps, pheap := h,
                  active_games := filter (\<lambda>item. snd item = Pending) (active_games s)\<rparr>,
               finished))"

text \<open>
  \<open>await asyncio.sleep(0.01)\<close> in \<open>run\<close>: the game tasks run meanwhile. A pending
  task whose own sleep elapses goes on with \<open>compute_score\<close> (the rest of
  \<open>Game.run\<close>) and is done, with the exception if there is one.
\<close>

fun run_tasks ::
  "tick_env \<Rightarrow> heap \<Rightarrow> nat \<Rightarrow> (Game \<times> task) list \<Rightarrow> theap \<Rightarrow> (Game \<times> task) list \<times> theap" where
  "run_tasks env h i [] th = ([], th)"
| "run_tasks env h i ((game, Done r) # rest) th =
     (let (items, th') = run_tasks env h (i + 1) rest th in ((game, Done r) # items, th'))"
| "run_tasks env h i ((game, Pending) # rest) th =
     (if elapses env i
      then (case compute_score h game (draws env i) th of
              Inl e \<Rightarrow>
                (let (items, th') = run_tasks env h (i + 1) rest th
                 in ((game, Done (Some e)) # items, th'))
            | Inr th1 \<Rightarrow>
                (let (items, th') = run_tasks env h (i + 1) rest th1
                 in ((game, Done None) # items, th')))
      else (let (items, th') = run_tasks env h (i + 1) rest th
            in ((game, Pending) # items, th')))"

definition sleep_tick :: "tick_env \<Rightarrow> MatchMakerServer \<Rightarrow> MatchMakerServer" where
  "sleep_tick env s =
     (let (items, th) = run_tasks env (pheap s) 0 (active_games s) (teap s)
      in s\<lparr>active_games := items, teap := th\<rparr>)"

text \<open>
  One iteration of the loop of \<open>run\<close> up to the test of \<open>max_round\<close>: the new state
  and the number of games that \<open>handle_games\<close> finished.
\<close>

definition tick :: "tick_env \<Rightarrow> MatchMakerServer \<Rightarrow> error + MatchMakerServer \<times> nat" where
  "tick env s =
     (case try_create_game (create_clock env) s of
        Inl e \<Rightarrow> Inl e
      | Inr s1 \<Rightarrow>
          (case handle_games env s1 of
             Inl e \<Rightarrow> Inl e
           | Inr (s2, finished_game) \<Rightarrow> Inr (sleep_tick env s2, finished_game)))"

text \<open>
  \<open>MatchMakerServer.run\<close>. The loop may run forever, so it takes fuel: \<open>None\<close> is
  "still running when the fuel is used up". \<open>n\<close> counts the ticks and selects the
  tick's environment. The result of a run that ends is the exception, or the final
  state with \<open>round_finished\<close>.
\<close>

fun run_loop ::
  "nat \<Rightarrow> (nat \<Rightarrow> tick_env) \<Rightarrow> nat \<Rightarrow> MatchMakerServer \<Rightarrow> int
     \<Rightarrow> (error + MatchMakerServer \<times> int) option" where
  "run_loop 0 env n s round_finished = None"
| "run_loop (Suc fuel) env n s round_finished =
     (case tick (env n) s of
        Inl e \<Rightarrow> Some (Inl e)
      | Inr (s', finished_game) \<Rightarrow>
          (case max_round s' of
             None \<Rightarrow> run_loop fuel env (n + 1) s' round_finished
           | Some m \<Rightarrow>
               if m \<noteq> 0
               then (let round_finished' = round_finished + int finished_game
                     in if round_finished' > m then Some (Inr (s', round_finished'))
                        else run_loop fuel env (n + 1) s' round_finished')
               else run_loop fuel env (n + 1) s' round_finished))"

definition run :: "nat \<Rightarrow> (nat \<Rightarrow> tick_env) \<Rightarrow> MatchMakerServer \<Rightarrow> (error + MatchMakerServer \<times> int) option" where
  "run fuel env s = run_loop fuel env 0 s 0"


section \<open>Example states\<close>

text \<open>
  Two players with ratings 1000 and 1200 (the pair of Scenario A), each alone in a
  team, and the game of these two teams without nudge.
\<close>

definition demo_heap :: heap where
  "demo_heap = (\<lambda>_. Player_init 0 100 100 False (0, 0))
     (0 := Player_init 0 100 1000 False (0, 0),
      1 := Player_init 1 100 1200 False (1, 1))"

definition demo_theap :: theap where
  "demo_theap = (\<lambda>_. Team_init [])(0 := Team_init [0], 1 := Team_init [1])"

definition demo_game :: Game where
  "demo_game = Game_init [0, 1] None (1 / 2)"

text \<open>
  A rated game of two teams of two players each, all rated 1000: team 10 holds score
  1 and team 20 holds score 0.
\<close>

definition duel_heap :: heap where
  "duel_heap = (\<lambda>i. Player_init (int i) 100 1000 False (0, 0))"

definition duel_theap :: theap where
  "duel_theap = (\<lambda>_. Team_init [])
     (10 := \<lparr>players = [11, 12], score = Some 1\<rparr>,
      20 := \<lparr>players = [21, 22], score = Some 0\<rparr>)"

definition duel_game :: Game where
  "duel_game = Game_init [10, 20] None (1 / 2)"

text \<open>
  Scenario B: four waiting players 10, 11, 12, 13 with ratings 1000, 1010, 1020,
  1030, enrolled in this order, player 10 waiting longest.
\<close>

definition scenario_b_heap :: heap where
  "scenario_b_heap = (\<lambda>_. Player_init 0 100 100 False (0, 0))
     (10 := Player_init 10 100 1000 False (0, 0),
      11 := Player_init 11 100 1010 False (1, 1),
      12 := Player_init 12 100 1020 False (2, 2),
      13 := Player_init 13 100 1030 False (3, 3))"

definition scenario_b_store :: PlayerStore where
  "scenario_b_store = PlayerStore_init [10, 11, 12, 13]"

text \<open>
  A server for two players rated 1000, teams of one player, two teams a game, and
  \<open>max_round = 1\<close>, the games shorter than the sleep of a tick; the same with a
  team size of 0; an environment in which every pending task finishes during the
  sleep of the tick and every random value is 0;
  the states of the two-player server after \<open>try_create_game\<close> of the first tick
  and after the whole first tick.
\<close>

definition pair_heap :: heap where
  "pair_heap = (\<lambda>_. Player_init 0 100 100 False (0, 0))
     (10 := Player_init 10 100 1000 False (0, 0),
      11 := Player_init 11 100 1000 False (1, 1))"

definition pair_settings :: games_settings where
  "pair_settings = \<lparr>gs_team_size = 1, gs_team_number = 2, gs_k_factor = 32,
     gs_nudge = None, gs_game_duration = 1 / 1000\<rparr>"

definition pair_server :: MatchMakerServer where
  "pair_server = MatchMakerServer_init pair_heap [10, 11] pair_settings (Some 1) (1 / 2)"

definition zero_server :: MatchMakerServer where
  "zero_server = MatchMakerServer_init pair_heap [10, 11]
     (pair_settings\<lparr>gs_team_size := 0\<rparr>) (Some 1) (1 / 2)"

definition steady_env :: tick_env where
  "steady_env = \<lparr>create_clock = (\<lambda>_. (5, 5)), release_clock = (\<lambda>_ _. (7, 7)),
     nudge_dirs = (\<lambda>_ _. 0), elapses = (\<lambda>_. True), draws = (\<lambda>_ _. 0)\<rparr>"

definition pair_game :: Game where
  "pair_game = Game_init [0, 1] None (1 / 2)"

definition pending_server :: MatchMakerServer where
  "pending_server = pair_server
     \<lparr>pheap := pair_heap
        (10 := (pair_heap 10)\<lparr>last_played := 5, last_played_ns := 5\<rparr>,
         11 := (pair_heap 11)\<lparr>last_played := 5, last_played_ns := 5\<rparr>),
      teap := (\<lambda>_. Team_init [])(0 := Team_init [10], 1 := Team_init [11]),
      next_team := 2,
      store := [(10, IN_GAME), (11, IN_GAME)],
      active_games := [(pair_game, Pending)]\<rparr>"


section \<open>Properties of Player\<close>

lemma rating_pos: "0 < rating p"
  by (simp add: rating_def)

lemma Player_nudge_nonneg: "0 \<le> true_rating (Player_nudge r n p)"
  by (simp add: Player_nudge_def Let_def)

lemma Player_nudge_elo: "elo (Player_nudge r n p) = elo p"
  by (simp add: Player_nudge_def Let_def)

lemma nudges_elo: "elo (nudges xs p) = elo p"
  unfolding nudges_def
  by (induction xs arbitrary: p) (auto simp: Player_nudge_elo)

lemma nudges_nonneg: "0 \<le> true_rating p \<Longrightarrow> 0 \<le> true_rating (nudges xs p)"
  unfolding nudges_def
  by (induction xs arbitrary: p) (auto simp: Player_nudge_nonneg)

text \<open>
  C2. The pairwise ELO delta is antisymmetric: for all players \<open>a\<close>, \<open>b\<close>, every
  outcome \<open>o\<close> and every k-factor, the delta of \<open>a\<close> against \<open>b\<close> is the negative of
  the delta of \<open>b\<close> against \<open>a\<close> under the inverted outcome (exact real arithmetic).
\<close>

theorem get_elo_delta_antisymmetric:
  "get_elo_delta a b outcome k = - get_elo_delta b a (invert outcome) k"
proof -
  define e where "e = rating a / (rating a + rating b)"
  have pos: "rating a + rating b \<noteq> 0"
    using rating_pos [of a] rating_pos [of b] by linarith
  have "e + rating b / (rating a + rating b) = 1"
    unfolding e_def using pos by (simp add: add_divide_distrib [symmetric])
  then have flip: "rating b / (rating b + rating a) = 1 - e"
    by (simp add: add.commute)
  have lhs: "get_elo_delta a b outcome k =
      k * ((if outcome = DRAW then 1 / 2 else if outcome = P1_WIN then 1 else 0) - e)"
    by (simp add: get_elo_delta_def Let_def e_def)
  have rhs: "get_elo_delta b a (invert outcome) k =
      k * ((if invert outcome = DRAW then 1 / 2
            else if invert outcome = P1_WIN then 1 else 0) - (1 - e))"
    by (simp add: get_elo_delta_def Let_def flip)
  show ?thesis
    unfolding lhs rhs by (cases outcome) (simp_all add: algebra_simps)
qed

text \<open>
  C7. Once \<open>Player.nudge\<close> has been applied, and after any number of further
  applications with any magnitudes and any random directions, \<open>true_rating\<close> is not
  negative; the \<open>elo\<close> field is left as it was (so it is not clamped).
\<close>

theorem nudge_true_rating_never_negative:
  "0 \<le> true_rating (nudges xs (Player_nudge r n p)) \<and>
   elo (nudges xs (Player_nudge r n p)) = elo p"
  by (simp add: nudges_nonneg Player_nudge_nonneg nudges_elo Player_nudge_elo)

section \<open>Properties of Game.compute\_score\<close>

lemma bisect_right_bounds:
  "lo \<le> hi \<Longrightarrow> lo \<le> bisect_right a x lo hi \<and> bisect_right a x lo hi \<le> hi"
proof (induction a x lo hi rule: bisect_right.induct)
  case (1 a x lo hi)
  show ?case
  proof (cases "lo < hi")
    case False
    with "1.prems" show ?thesis by (subst (1 2) bisect_right.simps) simp
  next
    case True
    define mid where "mid = (lo + hi) div 2"
    have mid: "lo \<le> mid" "mid < hi" using True by (auto simp: mid_def)
    show ?thesis
    proof (cases "x < a ! mid")
      case lt: True
      have eq: "bisect_right a x lo hi = bisect_right a x lo mid"
        by (subst bisect_right.simps) (use True lt in \<open>simp add: mid_def Let_def\<close>)
      from "1.IH"(1) [OF True mid_def lt] mid
      have "lo \<le> bisect_right a x lo mid \<and> bisect_right a x lo mid \<le> mid" by simp
      with mid show ?thesis unfolding eq by linarith
    next
      case ge: False
      have eq: "bisect_right a x lo hi = bisect_right a x (mid + 1) hi"
        by (subst bisect_right.simps) (use True ge in \<open>simp add: mid_def Let_def\<close>)
      from "1.IH"(2) [OF True mid_def ge] mid
      have "mid + 1 \<le> bisect_right a x (mid + 1) hi \<and> bisect_right a x (mid + 1) hi \<le> hi"
        by simp
      with mid show ?thesis unfolding eq by linarith
    qed
  qed
qed

lemma choices_member: "choices u population weights = Inr t \<Longrightarrow> t \<in> set population"
proof -
  assume a: "choices u population weights = Inr t"
  let ?cw = "accumulate weights"
  from a have n: "length ?cw = length population" and ne: "?cw \<noteq> []"
    by (auto simp: choices_def Let_def split: if_splits)
  then have pos: "0 < length population" by auto
  from a n ne have t: "t = population ! bisect_right ?cw (u * last ?cw) 0 (length population - 1)"
    by (auto simp: choices_def Let_def split: if_splits)
  have "bisect_right ?cw (u * last ?cw) 0 (length population - 1) \<le> length population - 1"
    using bisect_right_bounds [of 0 "length population - 1"] by simp
  with pos have "bisect_right ?cw (u * last ?cw) 0 (length population - 1) < length population"
    by linarith
  with t show ?thesis by simp
qed

lemma strengths_keys:
  "strengths h th g ts te = Inr te' \<Longrightarrow> distinct (map fst te) \<Longrightarrow>
     distinct (map fst te') \<and> fst ` set te' = fst ` set te \<union> set ts"
proof (induction ts arbitrary: te)
  case Nil
  then show ?case by simp
next
  case (Cons t ts)
  from Cons.prems(1) obtain w where w: "team_strength h g (th t) = Inr w"
    and rest: "strengths h th g ts (AList.update t w te) = Inr te'"
    by (auto split: sum.splits)
  have "distinct (map fst (AList.update t w te))"
    using Cons.prems(2) by (rule distinct_update)
  from Cons.IH [OF rest this] show ?case
    by (auto simp: dom_update)
qed

lemma draw_teams_drawn:
  "draw_teams us j n te res = Inr results \<Longrightarrow> distinct (map fst te) \<Longrightarrow>
     \<exists>drawn. results = res @ drawn \<and> length drawn = n \<and> distinct drawn
        \<and> set drawn \<subseteq> fst ` set te"
proof (induction n arbitrary: j te res)
  case 0
  then show ?case by simp
next
  case (Suc n)
  from Suc.prems(1) obtain team where
    c: "choices (us j) (map fst te) (map snd te) = Inr team" and
    rest: "draw_teams us (j + 1) n (AList.delete team te) (res @ [team]) = Inr results"
    by (auto split: sum.splits)
  have mem: "team \<in> fst ` set te" using choices_member [OF c] by simp
  have d: "distinct (map fst (AList.delete team te))"
    using Suc.prems(2) by (rule distinct_delete)
  from Suc.IH [OF rest d] obtain drawn where
    dr: "results = (res @ [team]) @ drawn" "length drawn = n" "distinct drawn"
        "set drawn \<subseteq> fst ` set (AList.delete team te)"
    by blast
  have notin: "team \<notin> set drawn"
    using dr(4) delete_notin_dom [of team te] by blast
  have sub: "set drawn \<subseteq> fst ` set te"
    using dr(4) dom_delete_subset [of team te] by blast
  show ?case
    by (rule exI [of _ "team # drawn"]) (use dr mem notin sub in auto)
qed

lemma assign_scores_other:
  "t \<notin> set ts \<Longrightarrow> assign_scores i ts th t = th t"
  by (induction ts arbitrary: i th) auto

lemma assign_scores_players:
  "players (assign_scores i ts th t) = players (th t)"
  by (induction ts arbitrary: i th) auto

lemma assign_scores_nth:
  "distinct ts \<Longrightarrow> k < length ts \<Longrightarrow> score (assign_scores i ts th (ts ! k)) = Some (i + int k)"
proof (induction ts arbitrary: i th k)
  case Nil
  then show ?case by simp
next
  case (Cons t ts)
  show ?case
  proof (cases k)
    case 0
    with Cons.prems show ?thesis by (simp add: assign_scores_other)
  next
    case (Suc k')
    with Cons.prems Cons.IH [of k' "i + 1"] show ?thesis by simp
  qed
qed


lemma draw_order_perm:
  assumes "draw_order h th g us = Inr results"
  shows "distinct results \<and> set results = set (teams g)
     \<and> length results = length (teams g) \<and> distinct (teams g)"
proof -
  from assms obtain te where
    te: "strengths h th g (teams g) [] = Inr te" and
    dr: "draw_teams us 0 (length (teams g)) te [] = Inr results"
    by (auto simp: draw_order_def bind_err_def split: sum.splits)
  from strengths_keys [OF te] have keys: "distinct (map fst te)" "fst ` set te = set (teams g)"
    by auto
  from draw_teams_drawn [OF dr keys(1)] keys(2)
  have res: "length results = length (teams g)" "distinct results" "set results \<subseteq> set (teams g)"
    by auto
  have "card (set (teams g)) \<le> length (teams g)" by (rule card_length)
  moreover have "card (set results) = length (teams g)"
    using res(1,2) by (simp add: distinct_card)
  moreover have "card (set results) \<le> card (set (teams g))"
    using res(3) by (simp add: card_mono)
  ultimately have c: "card (set (teams g)) = length (teams g)" "card (set results) = card (set (teams g))"
    by auto
  have "set results = set (teams g)"
    using res(3) c(2) by (simp add: card_subset_eq)
  moreover have "distinct (teams g)" using c(1) by (rule card_distinct)
  ultimately show ?thesis using res by simp
qed

text \<open>
  C4. When \<open>compute_score\<close> returns, the draw order \<open>results\<close> is a permutation
  of the game's teams, the scores read along the reversed draw order are
  \<open>0, 1, ..., teamNumber - 1\<close>, so the teams hold pairwise distinct scores whose set
  is exactly \<open>{0, ..., teamNumber - 1}\<close>; the team drawn first holds
  \<open>teamNumber - 1\<close> and the team drawn last holds \<open>0\<close>.
\<close>

theorem compute_score_assigns_ranks:
  assumes "compute_score h g us th = Inr th'"
  shows "\<exists>results. draw_order h th g us = Inr results
     \<and> distinct results \<and> set results = set (teams g)
     \<and> length results = length (teams g)
     \<and> map (\<lambda>t. score (th' t)) (rev results) = map (\<lambda>i. Some (int i)) [0..<length (teams g)]
     \<and> inj_on (\<lambda>t. score (th' t)) (set (teams g))
     \<and> (\<lambda>t. score (th' t)) ` set (teams g) = (\<lambda>i. Some (int i)) ` {0..<length (teams g)}
     \<and> (teams g \<noteq> [] \<longrightarrow>
            score (th' (hd results)) = Some (int (length (teams g)) - 1)
          \<and> score (th' (last results)) = Some 0)"
proof -
  define n where "n = length (teams g)"
  from assms obtain results where
    dr: "draw_order h th g us = Inr results" and
    th': "th' = assign_scores 0 (rev results) th"
    by (auto simp: compute_score_def bind_err_def split: sum.splits)
  from draw_order_perm [OF dr] have
    perm: "distinct results" "set results = set (teams g)" "length results = n"
    by (auto simp: n_def)
  have dist: "distinct (rev results)" using perm(1) by simp
  have nth: "score (th' (rev results ! k)) = Some (int k)" if "k < n" for k
    using assign_scores_nth [OF dist, of k 0 th] that perm(3) by (simp add: th')
  have scores: "map (\<lambda>t. score (th' t)) (rev results) = map (\<lambda>i. Some (int i)) [0..<n]"
    by (rule nth_equalityI) (use perm(3) nth in auto)
  have inj: "inj_on (\<lambda>t. score (th' t)) (set (teams g))"
  proof -
    have "distinct (map (\<lambda>t. score (th' t)) (rev results))"
      unfolding scores by (simp add: distinct_map inj_on_def)
    then have "inj_on (\<lambda>t. score (th' t)) (set (rev results))"
      by (simp add: distinct_map)
    then show ?thesis using perm(2) by simp
  qed
  have img: "(\<lambda>t. score (th' t)) ` set (teams g) = (\<lambda>i. Some (int i)) ` {0..<n}"
  proof -
    have "set (map (\<lambda>t. score (th' t)) (rev results)) = set (map (\<lambda>i. Some (int i)) [0..<n])"
      by (simp only: scores)
    then show ?thesis using perm(2) by simp
  qed
  have ends: "score (th' (hd results)) = Some (int n - 1) \<and> score (th' (last results)) = Some 0"
    if ne: "teams g \<noteq> []"
  proof -
    from ne have pos: "0 < n" by (simp add: n_def)
    with perm(3) have rne: "results \<noteq> []" by auto
    have "rev results ! (n - 1) = hd results"
      using rne perm(3) pos by (simp add: rev_nth hd_conv_nth)
    moreover have "rev results ! 0 = last results"
      using rne perm(3) pos by (simp add: rev_nth last_conv_nth)
    moreover have "int (n - 1) = int n - 1" using pos by simp
    ultimately show ?thesis using nth [of "n - 1"] nth [of 0] pos by simp
  qed
  show ?thesis
    by (rule exI [of _ results]) (use dr perm scores inj img ends in \<open>simp add: n_def\<close>)
qed

lemma demo_draw: "draw_order demo_heap demo_theap demo_game (\<lambda>_. 0) = Inr [0, 1]"
  by (simp add: draw_order_def bind_err_def demo_game_def Game_init_def demo_theap_def
      Team_init_def demo_heap_def Player_init_def team_strength_def truthy_def choices_def
      bisect_right.simps Let_def)

theorem compute_score_assigns_ranks_witness:
  "compute_score demo_heap demo_game (\<lambda>_. 0) demo_theap
      = Inr (assign_scores 0 [1, 0] demo_theap)
   \<and> score (assign_scores 0 [1, 0] demo_theap 0) = Some 1
   \<and> score (assign_scores 0 [1, 0] demo_theap 1) = Some 0"
proof -
  have run: "compute_score demo_heap demo_game (\<lambda>_. 0) demo_theap
      = Inr (assign_scores 0 [1, 0] demo_theap)"
    by (simp add: compute_score_def demo_draw bind_err_def)
  have len: "teams demo_game = [0, 1]" by (simp add: demo_game_def Game_init_def)
  from compute_score_assigns_ranks [OF run] obtain results where
    r: "draw_order demo_heap demo_theap demo_game (\<lambda>_. 0) = Inr results" and
    e: "teams demo_game \<noteq> [] \<longrightarrow>
          score (assign_scores 0 [1, 0] demo_theap (hd results))
            = Some (int (length (teams demo_game)) - 1)
        \<and> score (assign_scores 0 [1, 0] demo_theap (last results)) = Some 0"
    by blast
  from r have "results = [0, 1]" by (simp add: demo_draw)
  with e len run show ?thesis by simp
qed

section \<open>Properties of Game.update\_elo\<close>

lemma get_elo_delta_elo_only:
  "elo a = elo a' \<Longrightarrow> elo b = elo b' \<Longrightarrow> get_elo_delta a b outcome k = get_elo_delta a' b' outcome k"
  by (simp add: get_elo_delta_def rating_def)

lemma deltas_of_append:
  "deltas_of (delta_append d p x) q = (if q = p then deltas_of d p @ [x] else deltas_of d q)"
  by (simp add: deltas_of_def delta_append_def update_conv')

lemma delta_append_keys: "distinct (map fst d) \<Longrightarrow> distinct (map fst (delta_append d p x))"
  unfolding delta_append_def by (rule distinct_update)

lemma set_update_subset: "set (AList.update k v al) \<subseteq> insert (k, v) (set al)"
  by (induction al) auto

lemma delta_append_nonempty: "nonempty_entries d \<Longrightarrow> nonempty_entries (delta_append d p x)"
  unfolding nonempty_entries_def delta_append_def list_all_iff
  using set_update_subset [of p "deltas_of d p @ [x]" d] by auto

text \<open>The inner loop.\<close>

lemma rate_against_effect:
  "rate_against th k t p opps (h, d) = Inr (h', d') \<Longrightarrow>
     (\<forall>q. elo (h' q) = elo (h q))
   \<and> (\<forall>q. win (h' q) = win (h q) + (if q = p
          then length (filter (\<lambda>opp. compare (th t) (th (fst opp)) = Inr P1_WIN) opps) else 0))
   \<and> (\<forall>q. lose (h' q) = lose (h q) + (if q = p
          then length (filter (\<lambda>opp. compare (th t) (th (fst opp)) = Inr P2_WIN) opps) else 0))
   \<and> (\<forall>q. deltas_of d' q = deltas_of d q @ (if q = p
          then map (\<lambda>opp. get_elo_delta (h p) (h (snd opp)) (outcome_of th t (fst opp)) k) opps
          else []))
   \<and> (distinct (map fst d) \<longrightarrow> distinct (map fst d'))
   \<and> (nonempty_entries d \<longrightarrow> nonempty_entries d')"
proof (induction opps arbitrary: h d)
  case Nil
  then show ?case by simp
next
  case (Cons opp opps)
  obtain t' q' where opp: "opp = (t', q')" by (cases opp)
  from Cons.prems opp obtain outcome where
    c: "compare (th t) (th t') = Inr outcome"
    by (auto split: sum.splits)
  define h1 where "h1 = (if outcome = P1_WIN then h(p := add_win (h p))
                     else if outcome = P2_WIN then h(p := add_lose (h p)) else h)"
  define d1 where "d1 = delta_append d p (get_elo_delta (h1 p) (h1 q') outcome k)"
  from Cons.prems opp c have rest: "rate_against th k t p opps (h1, d1) = Inr (h', d')"
    by (simp add: h1_def d1_def Let_def)
  note IH = Cons.IH [OF rest]
  have elo1: "elo (h1 q) = elo (h q)" for q
    by (simp add: h1_def add_win_def add_lose_def)
  have win1: "win (h1 q) = win (h q) + (if q = p \<and> outcome = P1_WIN then 1 else 0)" for q
    by (simp add: h1_def add_win_def add_lose_def)
  have lose1: "lose (h1 q) = lose (h q) + (if q = p \<and> outcome = P2_WIN then 1 else 0)" for q
    by (auto simp: h1_def add_win_def add_lose_def)
  have out: "outcome_of th t t' = outcome" by (simp add: outcome_of_def c)
  have dl: "get_elo_delta (h1 a) (h1 b) oc k = get_elo_delta (h a) (h b) oc k" for a b oc
    by (rule get_elo_delta_elo_only) (simp_all add: elo1)
  have d1q: "deltas_of d1 q = deltas_of d q @ (if q = p
      then [get_elo_delta (h p) (h q') outcome k] else [])" for q
    by (simp add: d1_def deltas_of_append dl)
  have "\<forall>q. elo (h' q) = elo (h q)" using IH elo1 by simp
  moreover have "\<forall>q. win (h' q) = win (h q) + (if q = p
          then length (filter (\<lambda>opp. compare (th t) (th (fst opp)) = Inr P1_WIN) (opp # opps)) else 0)"
    using IH win1 c by (auto simp: opp)
  moreover have "\<forall>q. lose (h' q) = lose (h q) + (if q = p
          then length (filter (\<lambda>opp. compare (th t) (th (fst opp)) = Inr P2_WIN) (opp # opps)) else 0)"
    using IH lose1 c by (auto simp: opp)
  moreover have "\<forall>q. deltas_of d' q = deltas_of d q @ (if q = p
          then map (\<lambda>opp. get_elo_delta (h p) (h (snd opp)) (outcome_of th t (fst opp)) k) (opp # opps)
          else [])"
    using IH d1q out by (simp add: opp dl)
  moreover have "distinct (map fst d) \<longrightarrow> distinct (map fst d')"
    using IH by (simp add: d1_def delta_append_keys)
  moreover have "nonempty_entries d \<longrightarrow> nonempty_entries d'"
    using IH by (simp add: d1_def delta_append_nonempty)
  ultimately show ?case by blast
qed

text \<open>The outer loop.\<close>

lemma collect_deltas_effect:
  "collect_deltas th k g ps (h, d) = Inr (h', d') \<Longrightarrow>
     (\<forall>q. elo (h' q) = elo (h q))
   \<and> (\<forall>q. win (h' q) = win (h q) + length (filter
          (\<lambda>pr. snd (fst pr) = q \<and> compare (th (fst (fst pr))) (th (fst (snd pr))) = Inr P1_WIN)
          (concat (map (\<lambda>tp. map (\<lambda>opp. (tp, opp)) (Game_players th g (Some (fst tp)))) ps))))
   \<and> (\<forall>q. lose (h' q) = lose (h q) + length (filter
          (\<lambda>pr. snd (fst pr) = q \<and> compare (th (fst (fst pr))) (th (fst (snd pr))) = Inr P2_WIN)
          (concat (map (\<lambda>tp. map (\<lambda>opp. (tp, opp)) (Game_players th g (Some (fst tp)))) ps))))
   \<and> (\<forall>q. deltas_of d' q = deltas_of d q @ map
          (\<lambda>pr. get_elo_delta (h q) (h (snd (snd pr)))
                  (outcome_of th (fst (fst pr)) (fst (snd pr))) k)
          (filter (\<lambda>pr. snd (fst pr) = q)
            (concat (map (\<lambda>tp. map (\<lambda>opp. (tp, opp)) (Game_players th g (Some (fst tp)))) ps))))
   \<and> (distinct (map fst d) \<longrightarrow> distinct (map fst d'))
   \<and> (nonempty_entries d \<longrightarrow> nonempty_entries d')"
proof (induction ps arbitrary: h d)
  case Nil
  then show ?case by simp
next
  case (Cons tp ps)
  obtain t p where tp: "tp = (t, p)" by (cases tp)
  define opps where "opps = Game_players th g (Some t)"
  from Cons.prems tp obtain h1 d1 where
    inner: "rate_against th k t p opps (h, d) = Inr (h1, d1)" and
    rest: "collect_deltas th k g ps (h1, d1) = Inr (h', d')"
    by (auto simp: bind_err_def opps_def split: sum.splits)
  note I = rate_against_effect [OF inner]
  note IH = Cons.IH [OF rest]
  have elo1: "elo (h1 q) = elo (h q)" for q using I by simp
  have dl: "get_elo_delta (h1 a) (h1 b) oc k = get_elo_delta (h a) (h b) oc k" for a b oc
    by (rule get_elo_delta_elo_only) (simp_all add: elo1)
  have "\<forall>q. elo (h' q) = elo (h q)" using IH elo1 by simp
  moreover have "\<forall>q. win (h' q) = win (h q) + length (filter
          (\<lambda>pr. snd (fst pr) = q \<and> compare (th (fst (fst pr))) (th (fst (snd pr))) = Inr P1_WIN)
          (concat (map (\<lambda>tp. map (\<lambda>opp. (tp, opp)) (Game_players th g (Some (fst tp)))) (tp # ps))))"
  proof
    fix q
    have "win (h1 q) = win (h q) + (if q = p
          then length (filter (\<lambda>opp. compare (th t) (th (fst opp)) = Inr P1_WIN) opps) else 0)"
      using I by simp
    moreover have "win (h' q) = win (h1 q) + length (filter
          (\<lambda>pr. snd (fst pr) = q \<and> compare (th (fst (fst pr))) (th (fst (snd pr))) = Inr P1_WIN)
          (concat (map (\<lambda>tp. map (\<lambda>opp. (tp, opp)) (Game_players th g (Some (fst tp)))) ps)))"
      using IH by simp
    ultimately show "win (h' q) = win (h q) + length (filter
          (\<lambda>pr. snd (fst pr) = q \<and> compare (th (fst (fst pr))) (th (fst (snd pr))) = Inr P1_WIN)
          (concat (map (\<lambda>tp. map (\<lambda>opp. (tp, opp)) (Game_players th g (Some (fst tp)))) (tp # ps))))"
      by (simp add: tp opps_def filter_map o_def)
  qed
  moreover have "\<forall>q. lose (h' q) = lose (h q) + length (filter
          (\<lambda>pr. snd (fst pr) = q \<and> compare (th (fst (fst pr))) (th (fst (snd pr))) = Inr P2_WIN)
          (concat (map (\<lambda>tp. map (\<lambda>opp. (tp, opp)) (Game_players th g (Some (fst tp)))) (tp # ps))))"
  proof
    fix q
    have "lose (h1 q) = lose (h q) + (if q = p
          then length (filter (\<lambda>opp. compare (th t) (th (fst opp)) = Inr P2_WIN) opps) else 0)"
      using I by simp
    moreover have "lose (h' q) = lose (h1 q) + length (filter
          (\<lambda>pr. snd (fst pr) = q \<and> compare (th (fst (fst pr))) (th (fst (snd pr))) = Inr P2_WIN)
          (concat (map (\<lambda>tp. map (\<lambda>opp. (tp, opp)) (Game_players th g (Some (fst tp)))) ps)))"
      using IH by simp
    ultimately show "lose (h' q) = lose (h q) + length (filter
          (\<lambda>pr. snd (fst pr) = q \<and> compare (th (fst (fst pr))) (th (fst (snd pr))) = Inr P2_WIN)
          (concat (map (\<lambda>tp. map (\<lambda>opp. (tp, opp)) (Game_players th g (Some (fst tp)))) (tp # ps))))"
      by (simp add: tp opps_def filter_map o_def)
  qed
  moreover have "\<forall>q. deltas_of d' q = deltas_of d q @ map
          (\<lambda>pr. get_elo_delta (h q) (h (snd (snd pr)))
                  (outcome_of th (fst (fst pr)) (fst (snd pr))) k)
          (filter (\<lambda>pr. snd (fst pr) = q)
            (concat (map (\<lambda>tp. map (\<lambda>opp. (tp, opp)) (Game_players th g (Some (fst tp)))) (tp # ps))))"
  proof
    fix q
    have a: "deltas_of d1 q = deltas_of d q @ (if q = p
          then map (\<lambda>opp. get_elo_delta (h p) (h (snd opp)) (outcome_of th t (fst opp)) k) opps
          else [])"
      using I by simp
    have b: "deltas_of d' q = deltas_of d1 q @ map
          (\<lambda>pr. get_elo_delta (h q) (h (snd (snd pr)))
                  (outcome_of th (fst (fst pr)) (fst (snd pr))) k)
          (filter (\<lambda>pr. snd (fst pr) = q)
            (concat (map (\<lambda>tp. map (\<lambda>opp. (tp, opp)) (Game_players th g (Some (fst tp)))) ps)))"
      using IH by (simp add: dl)
    show "deltas_of d' q = deltas_of d q @ map
          (\<lambda>pr. get_elo_delta (h q) (h (snd (snd pr)))
                  (outcome_of th (fst (fst pr)) (fst (snd pr))) k)
          (filter (\<lambda>pr. snd (fst pr) = q)
            (concat (map (\<lambda>tp. map (\<lambda>opp. (tp, opp)) (Game_players th g (Some (fst tp)))) (tp # ps))))"
      unfolding b a by (simp add: tp opps_def filter_map o_def)
  qed
  moreover have "distinct (map fst d) \<longrightarrow> distinct (map fst d')" using I IH by simp
  moreover have "nonempty_entries d \<longrightarrow> nonempty_entries d'" using I IH by simp
  ultimately show ?case by blast
qed

text \<open>The second loop.\<close>

lemma apply_deltas_effect:
  "apply_deltas ng rs j d h = Inr h' \<Longrightarrow> distinct (map fst d) \<Longrightarrow>
     win (h' q) = win (h q) \<and> lose (h' q) = lose (h q)
   \<and> elo (h' q) = (case map_of d q of None \<Rightarrow> elo (h q)
                     | Some ds \<Rightarrow> elo (h q) + sum_list ds / real (length ds))"
proof (induction d arbitrary: h j)
  case Nil
  then show ?case by simp
next
  case (Cons e d)
  obtain p ds where e: "e = (p, ds)" by (cases e)
  define p1 where "p1 = (h p)\<lparr>elo := elo (h p) + sum_list ds / real (length ds)\<rparr>"
  define p2 where "p2 = (case ng of None \<Rightarrow> p1
                   | Some n \<Rightarrow> if n \<noteq> 0 then Player_nudge (rs j) n p1 else p1)"
  from Cons.prems(1) e have rest: "apply_deltas ng rs (j + 1) d (h(p := p2)) = Inr h'"
    unfolding p2_def p1_def by (simp add: Let_def split: if_splits)
  have dist: "distinct (map fst d)" and notin: "p \<notin> fst ` set d"
    using Cons.prems(2) e by auto
  have none: "map_of d p = None" using notin by (simp add: map_of_eq_None_iff)
  have p2: "elo p2 = elo (h p) + sum_list ds / real (length ds)"
           "win p2 = win (h p)" "lose p2 = lose (h p)"
    by (auto simp: p2_def p1_def Player_nudge_def Let_def split: option.splits)
  from Cons.IH [OF rest dist] p2 none show ?case
    by (cases "q = p") (simp_all add: e split: option.splits)
qed

lemma nonempty_entries_map_of:
  assumes "nonempty_entries d" and "map_of d q = Some ds"
  shows "ds \<noteq> []"
proof -
  have "(q, ds) \<in> set d" using assms(2) by (rule map_of_SomeD)
  with assms(1) have "snd (q, ds) \<noteq> []"
    unfolding nonempty_entries_def list_all_iff by blast
  then show ?thesis by simp
qed

lemma update_elo_effect:
  assumes "update_elo th g k rs h = Inr h'"
  shows "win (h' q) = win (h q) + pairs_with th g P1_WIN q"
    and "lose (h' q) = lose (h q) + pairs_with th g P2_WIN q"
    and "elo (h' q) = (if deltas_from th g k h q = [] then elo (h q)
           else elo (h q) + sum_list (deltas_from th g k h q)
                             / real (length (deltas_from th g k h q)))"
    and "\<exists>h1 d. collect_deltas th k g (Game_players th g None) (h, []) = Inr (h1, d)
           \<and> (\<forall>p. elo (h1 p) = elo (h p))
           \<and> (\<forall>p. deltas_of d p = deltas_from th g k h p)
           \<and> apply_deltas (nudge g) rs 0 d h1 = Inr h'"
proof -
  from assms obtain h1 d where
    c: "collect_deltas th k g (Game_players th g None) (h, []) = Inr (h1, d)" and
    a: "apply_deltas (nudge g) rs 0 d h1 = Inr h'"
    by (auto simp: update_elo_def bind_err_def split: sum.splits)
  note C = collect_deltas_effect [OF c]
  have dist: "distinct (map fst d)" using C by simp
  have ne: "nonempty_entries d" using C by (simp add: nonempty_entries_def)
  have dq: "deltas_of d p = deltas_from th g k h p" for p
    using C by (simp add: deltas_from_def opposing_pairs_def deltas_of_def)
  note A = apply_deltas_effect [OF a dist, of q]
  show "win (h' q) = win (h q) + pairs_with th g P1_WIN q"
    using A C by (simp add: pairs_with_def opposing_pairs_def)
  show "lose (h' q) = lose (h q) + pairs_with th g P2_WIN q"
    using A C by (simp add: pairs_with_def opposing_pairs_def)
  show "elo (h' q) = (if deltas_from th g k h q = [] then elo (h q)
           else elo (h q) + sum_list (deltas_from th g k h q)
                             / real (length (deltas_from th g k h q)))"
  proof (cases "map_of d q")
    case None
    then have "deltas_from th g k h q = []" using dq [of q] by (simp add: deltas_of_def)
    with A None C show ?thesis by simp
  next
    case (Some ds)
    then have "deltas_from th g k h q = ds" using dq [of q] by (simp add: deltas_of_def)
    moreover have "ds \<noteq> []" using nonempty_entries_map_of [OF ne Some] .
    ultimately show ?thesis using A Some C by simp
  qed
  show "\<exists>h1 d. collect_deltas th k g (Game_players th g None) (h, []) = Inr (h1, d)
           \<and> (\<forall>p. elo (h1 p) = elo (h p))
           \<and> (\<forall>p. deltas_of d p = deltas_from th g k h p)
           \<and> apply_deltas (nudge g) rs 0 d h1 = Inr h'"
    using c a C dq by blast
qed

lemma duel_players:
  "Game_players duel_theap duel_game None = [(10, 11), (10, 12), (20, 21), (20, 22)]"
  "Game_players duel_theap duel_game (Some 10) = [(20, 21), (20, 22)]"
  "Game_players duel_theap duel_game (Some 20) = [(10, 11), (10, 12)]"
  by (simp_all add: Game_players_def duel_theap_def duel_game_def Game_init_def)

lemma duel_cmp:
  "compare (duel_theap 10) (duel_theap 20) = Inr P1_WIN"
  "compare (duel_theap 20) (duel_theap 10) = Inr P2_WIN"
  by (simp_all add: compare_def duel_theap_def)

lemma duel_nudge: "nudge duel_game = None"
  by (simp add: duel_game_def Game_init_def)

lemma duel_returns: "\<not> isl (update_elo duel_theap duel_game 32 (\<lambda>_. 0) duel_heap)"
  by (simp add: update_elo_def duel_players duel_cmp duel_nudge bind_err_def Let_def
        delta_append_def deltas_of_def)

lemma duel_pairs:
  "pairs_with duel_theap duel_game P1_WIN 11 = 2"
  "pairs_with duel_theap duel_game P2_WIN 11 = 0"
  by (simp_all add: pairs_with_def opposing_pairs_def duel_players duel_cmp)

lemma duel_win0: "win (duel_heap 11) = 0"
  by (simp add: duel_heap_def Player_init_def)

lemma duel_run: "map_sum id (\<lambda>h'. win (h' 11)) (update_elo duel_theap duel_game 32 (\<lambda>_. 0) duel_heap) = Inr 2"
proof -
  from duel_returns obtain h' where
    r: "update_elo duel_theap duel_game 32 (\<lambda>_. 0) duel_heap = Inr h'"
    by (cases "update_elo duel_theap duel_game 32 (\<lambda>_. 0) duel_heap") auto
  from update_elo_effect(1) [OF r, of 11] have "win (h' 11) = 2"
    by (simp add: duel_pairs duel_win0)
  with r show ?thesis by simp
qed

lemma count_pairs_outer:
  "length (filter (\<lambda>pr. snd (fst pr) = q \<and> Q (fst (fst pr)) (fst (snd pr)))
       (concat (map (\<lambda>tp. map (\<lambda>opp. (tp, opp)) (opps (fst tp))) ps)))
   = sum_list (map (\<lambda>tp. if snd tp = q
        then length (filter (\<lambda>opp. Q (fst tp) (fst opp)) (opps (fst tp))) else 0) ps)"
  by (induction ps) (auto simp: filter_map o_def)

lemma sum_over_team:
  "sum_list (map ((\<lambda>tp. if snd tp = q then F (fst tp) else 0) \<circ> Pair t) ps)
     = count_list ps q * F t"
  by (induction ps) auto

lemma sum_over_teams:
  "sum_list (map (\<lambda>tp. if snd tp = q then F (fst tp) else 0)
       (concat (map (\<lambda>t. map (Pair t) (pl t)) ts)))
     = sum_list (map (\<lambda>t. count_list (pl t) q * F t) ts)"
  by (induction ts) (simp_all add: sum_over_team)

lemma count_list_distinct: "distinct xs \<Longrightarrow> x \<in> set xs \<Longrightarrow> count_list xs x = 1"
  by (induction xs) auto

lemma sum_single_team:
  "distinct ts \<Longrightarrow> t0 \<in> set ts \<Longrightarrow> count_list (pl t0) q = 1 \<Longrightarrow>
   (\<forall>t \<in> set ts. t \<noteq> t0 \<longrightarrow> count_list (pl t) q = 0) \<Longrightarrow>
   sum_list (map (\<lambda>t. count_list (pl t) q * F t) ts) = F t0"
proof (induction ts)
  case Nil
  then show ?case by simp
next
  case (Cons t ts)
  show ?case
  proof (cases "t = t0")
    case True
    then have "t0 \<notin> set ts" using Cons.prems(1) by simp
    then have "sum_list (map (\<lambda>t. count_list (pl t) q * F t) ts) = 0"
      using Cons.prems(4) by (auto simp: sum_list_eq_0_iff)
    with True Cons.prems(3) show ?thesis by simp
  next
    case False
    with Cons show ?thesis by auto
  qed
qed

lemma count_opponents:
  "(\<forall>t' \<in> set ts. length (pl t') = s) \<Longrightarrow>
   length (filter (\<lambda>opp. Q (fst opp)) (concat (map (\<lambda>t'. map (\<lambda>p. (t', p)) (pl t')) ts)))
     = s * length (filter Q ts)"
  by (induction ts) (auto simp: filter_map o_def)

lemma pairs_with_team_size:
  assumes "plays_in th g s t q"
  shows "pairs_with th g outcome q
     = s * length (filter (\<lambda>t'. t' \<noteq> t \<and> compare (th t) (th t') = Inr outcome) (teams g))"
proof -
  from assms have d: "distinct (teams g)" and t: "t \<in> set (teams g)"
    and q: "q \<in> set (players (th t))"
    and all: "\<forall>t' \<in> set (teams g). distinct (players (th t')) \<and> length (players (th t')) = s
          \<and> (t' = t \<or> q \<notin> set (players (th t')))"
    by (auto simp: plays_in_def list_all_iff)
  define F where "F = (\<lambda>t. length (filter (\<lambda>opp. compare (th t) (th (fst opp)) = Inr outcome)
      (Game_players th g (Some t))))"
  have c1: "count_list (players (th t)) q = 1"
    using all t q by (simp add: count_list_distinct)
  have c0: "\<forall>t' \<in> set (teams g). t' \<noteq> t \<longrightarrow> count_list (players (th t')) q = 0"
    using all by (auto simp: count_list_0_iff)
  have "pairs_with th g outcome q
      = sum_list (map (\<lambda>tp. if snd tp = q then F (fst tp) else 0) (Game_players th g None))"
    unfolding pairs_with_def opposing_pairs_def F_def
    by (rule count_pairs_outer [of q "\<lambda>a b. compare (th a) (th b) = Inr outcome"
          "\<lambda>a. Game_players th g (Some a)"])
  also have "\<dots> = sum_list (map (\<lambda>t. count_list (players (th t)) q * F t) (teams g))"
  proof -
    have "Game_players th g None
        = concat (map (\<lambda>t. map (Pair t) (players (th t))) (teams g))"
      by (simp add: Game_players_def)
    then show ?thesis
      using sum_over_teams [of q F "\<lambda>t. players (th t)" "teams g"] by simp
  qed
  also have "\<dots> = F t"
    using d t c1 c0 by (rule sum_single_team)
  also have "F t = s * length (filter (\<lambda>t'. compare (th t) (th t') = Inr outcome)
        (filter (\<lambda>t'. Some t' \<noteq> Some t) (teams g)))"
    unfolding F_def Game_players_def
    by (rule count_opponents) (use all in auto)
  also have "\<dots> = s * length (filter (\<lambda>t'. t' \<noteq> t \<and> compare (th t) (th t') = Inr outcome) (teams g))"
    by (simp add: conj_commute)
  finally show ?thesis .
qed

text \<open>
  C1 (as the code has it). In a rated game the win counter of a player is
  incremented once for every visited pair of the player and an opposing player
  whose team comparison is a pure win, and the loss counter once for every such pair
  that is a pure loss; a draw increments neither. The counters advance per opposing
  player, not per opposing team: for a player of exactly one team, in a game of
  teams of \<open>s\<close> players, the win counter grows by \<open>s\<close> times the number of
  other teams that the player's team outscored, the loss counter by \<open>s\<close> times the
  number of other teams that outscored it.
\<close>

theorem update_elo_win_lose_counters:
  assumes "update_elo th g k rs h = Inr h'"
  shows "win (h' q) = win (h q) + pairs_with th g P1_WIN q
       \<and> lose (h' q) = lose (h q) + pairs_with th g P2_WIN q
       \<and> (plays_in th g s t q \<longrightarrow>
            pairs_with th g P1_WIN q
              = s * length (filter (\<lambda>t'. t' \<noteq> t \<and> compare (th t) (th t') = Inr P1_WIN) (teams g))
          \<and> pairs_with th g P2_WIN q
              = s * length (filter (\<lambda>t'. t' \<noteq> t \<and> compare (th t) (th t') = Inr P2_WIN) (teams g)))"
  using update_elo_effect(1,2) [OF assms] pairs_with_team_size [of th g s t q]
  by simp

lemma duel_plays_in: "plays_in duel_theap duel_game 2 10 11"
  by (simp add: plays_in_def duel_theap_def duel_game_def Game_init_def)

lemma duel_teams: "teams duel_game = [10, 20]"
  by (simp add: duel_game_def Game_init_def)

theorem update_elo_win_lose_counters_witness:
  "map_sum id (\<lambda>h'. (win (h' 11), lose (h' 11)))
       (update_elo duel_theap duel_game 32 (\<lambda>_. 0) duel_heap) = Inr (2, 0)
   \<and> plays_in duel_theap duel_game 2 10 11
   \<and> pairs_with duel_theap duel_game P1_WIN 11 = 2 * 1"
proof -
  from duel_returns obtain h' where
    r: "update_elo duel_theap duel_game 32 (\<lambda>_. 0) duel_heap = Inr h'"
    by (cases "update_elo duel_theap duel_game 32 (\<lambda>_. 0) duel_heap") auto
  have lose0: "lose (duel_heap 11) = 0" by (simp add: duel_heap_def Player_init_def)
  from update_elo_win_lose_counters [OF r, of 11 2 10] duel_plays_in
  have "win (h' 11) = 2" "lose (h' 11) = 0" "pairs_with duel_theap duel_game P1_WIN 11 = 2 * 1"
    by (simp_all add: duel_win0 lose0 duel_teams duel_cmp duel_pairs)
  with r duel_plays_in show ?thesis by simp
qed

text \<open>
  C1 as stated fails: in the game of two teams of two players, team 10 outscores
  one team, and the win counter of its player 11 goes from 0 to 2.
\<close>

theorem win_once_per_opposing_team_counterexample:
  "map_sum id (\<lambda>h'. win (h' 11)) (update_elo duel_theap duel_game 32 (\<lambda>_. 0) duel_heap) = Inr 2
   \<and> win (duel_heap 11) = 0
   \<and> length (filter (\<lambda>t'. t' \<noteq> 10 \<and> compare (duel_theap 10) (duel_theap t') = Inr P1_WIN)
        (teams duel_game)) = 1
   \<and> 11 \<in> set (players (duel_theap 10))"
  by (simp add: duel_run duel_win0 duel_teams duel_cmp) (simp add: duel_theap_def)

text \<open>
  C10. Within one call of \<open>update_elo\<close> the first loop collects all deltas and
  leaves every \<open>elo\<close> as it was; each collected delta is the pairwise delta
  computed from the ratings of the heap before the call; only the second loop,
  which runs on the collected dictionary, writes \<open>elo\<close>: the old value plus the
  average of the player's deltas. So no delta depends on the order in which the
  players are rated.
\<close>

theorem update_elo_reads_pre_update_elo:
  assumes "update_elo th g k rs h = Inr h'"
  shows "\<exists>h1 d. collect_deltas th k g (Game_players th g None) (h, []) = Inr (h1, d)
           \<and> (\<forall>p. elo (h1 p) = elo (h p))
           \<and> (\<forall>p. deltas_of d p = deltas_from th g k h p)
           \<and> apply_deltas (nudge g) rs 0 d h1 = Inr h'
           \<and> (\<forall>p. elo (h' p) = (if deltas_from th g k h p = [] then elo (h p)
                 else elo (h p) + sum_list (deltas_from th g k h p)
                                    / real (length (deltas_from th g k h p))))"
  using update_elo_effect(3,4) [OF assms] by blast

lemma get_elo_delta_equal_elo:
  "elo a = elo b \<Longrightarrow> get_elo_delta a b outcome k
     = k * ((if outcome = DRAW then 1 / 2 else if outcome = P1_WIN then 1 else 0) - 1 / 2)"
proof -
  assume "elo a = elo b"
  then have r: "rating b = rating a" by (simp add: rating_def)
  have "rating a / (rating a + rating a) = 1 / 2"
    using rating_pos [of a] by (simp add: field_simps)
  then show ?thesis by (simp add: get_elo_delta_def Let_def r)
qed

lemma duel_deltas: "deltas_from duel_theap duel_game 32 duel_heap 11 = [16, 16]"
  by (simp add: deltas_from_def opposing_pairs_def duel_players outcome_of_def duel_cmp
        get_elo_delta_equal_elo duel_heap_def Player_init_def)

theorem update_elo_reads_pre_update_elo_witness:
  "map_sum id (\<lambda>h'. elo (h' 11)) (update_elo duel_theap duel_game 32 (\<lambda>_. 0) duel_heap)
     = Inr 1016
   \<and> deltas_from duel_theap duel_game 32 duel_heap 11 = [16, 16]"
proof -
  from duel_returns obtain h' where
    r: "update_elo duel_theap duel_game 32 (\<lambda>_. 0) duel_heap = Inr h'"
    by (cases "update_elo duel_theap duel_game 32 (\<lambda>_. 0) duel_heap") auto
  have e0: "elo (duel_heap 11) = 1000" by (simp add: duel_heap_def Player_init_def)
  from update_elo_reads_pre_update_elo [OF r]
  have "elo (h' 11) = (if deltas_from duel_theap duel_game 32 duel_heap 11 = []
      then elo (duel_heap 11)
      else elo (duel_heap 11) + sum_list (deltas_from duel_theap duel_game 32 duel_heap 11)
             / real (length (deltas_from duel_theap duel_game 32 duel_heap 11)))"
    by blast
  then have "elo (h' 11) = 1016" by (simp add: duel_deltas e0)
  with r duel_deltas show ?thesis by simp
qed

section \<open>Properties of PlayerStore\<close>

lemma PlayerStore_set_others:
  "p \<notin> set pls \<Longrightarrow>
     map_of (fst (PlayerStore_set clk i pls status (ps, h))) p = map_of ps p
   \<and> snd (PlayerStore_set clk i pls status (ps, h)) p = h p"
  by (induction pls arbitrary: i ps h) (auto simp: update_conv')

lemma PlayerStore_set_status:
  "p \<in> set pls \<Longrightarrow> map_of (fst (PlayerStore_set clk i pls status (ps, h))) p = Some status"
proof (induction pls arbitrary: i ps h)
  case Nil
  then show ?case by simp
next
  case (Cons a pls)
  show ?case
  proof (cases "p \<in> set pls")
    case True
    then show ?thesis using Cons.IH by simp
  next
    case False
    with Cons.prems have "a = p" by simp
    with False show ?thesis by (simp add: PlayerStore_set_others update_conv')
  qed
qed

lemma PlayerStore_set_stamp:
  "p \<in> set pls \<Longrightarrow>
     \<exists>j < length pls. pls ! j = p
        \<and> last_played (snd (PlayerStore_set clk i pls status (ps, h)) p) = fst (clk (i + j))
        \<and> last_played_ns (snd (PlayerStore_set clk i pls status (ps, h)) p) = snd (clk (i + j))"
proof (induction pls arbitrary: i ps h)
  case Nil
  then show ?case by simp
next
  case (Cons a pls)
  show ?case
  proof (cases "p \<in> set pls")
    case True
    from Cons.IH [OF True, of "i + 1" "AList.update a status ps"
        "h(a := (h a)\<lparr>last_played := fst (clk i), last_played_ns := snd (clk i)\<rparr>)"]
    obtain j where "j < length pls" "pls ! j = p"
      "last_played (snd (PlayerStore_set clk (i + 1) pls status (AList.update a status ps,
          h(a := (h a)\<lparr>last_played := fst (clk i), last_played_ns := snd (clk i)\<rparr>))) p)
        = fst (clk (i + 1 + j))"
      "last_played_ns (snd (PlayerStore_set clk (i + 1) pls status (AList.update a status ps,
          h(a := (h a)\<lparr>last_played := fst (clk i), last_played_ns := snd (clk i)\<rparr>))) p)
        = snd (clk (i + 1 + j))"
      by blast
    then show ?thesis
      by (intro exI [of _ "Suc j"]) simp
  next
    case False
    with Cons.prems have "a = p" by simp
    with False show ?thesis
      by (intro exI [of _ 0]) (simp add: PlayerStore_set_others)
  qed
qed

lemma PlayerStore_set_frame:
  "elo (snd (PlayerStore_set clk i pls status (ps, h)) p) = elo (h p)
   \<and> true_rating (snd (PlayerStore_set clk i pls status (ps, h)) p) = true_rating (h p)
   \<and> win (snd (PlayerStore_set clk i pls status (ps, h)) p) = win (h p)
   \<and> lose (snd (PlayerStore_set clk i pls status (ps, h)) p) = lose (h p)
   \<and> god (snd (PlayerStore_set clk i pls status (ps, h)) p) = god (h p)
   \<and> name (snd (PlayerStore_set clk i pls status (ps, h)) p) = name (h p)"
  by (induction pls arbitrary: i ps h) auto

lemma PlayerStore_set_keys:
  "distinct (map fst ps) \<Longrightarrow> distinct (map fst (fst (PlayerStore_set clk i pls status (ps, h))))"
  by (induction pls arbitrary: i ps h) (auto simp: distinct_update)

text \<open>
  C6 (as the code has it). \<open>PlayerStore.set(players, status)\<close> moves every given
  player to the given status and stamps \<open>last_played\<close> and \<open>last_played_ns\<close> of
  every given player with a clock reading taken during the call, whatever the
  status is; a player that is not given keeps its status and all its fields.
\<close>

theorem PlayerStore_set_moves_and_stamps:
  "(\<forall>p \<in> set pls.
       map_of (fst (PlayerStore_set clk i pls status (ps, h))) p = Some status
     \<and> (\<exists>j < length pls. pls ! j = p
          \<and> last_played (snd (PlayerStore_set clk i pls status (ps, h)) p) = fst (clk (i + j))
          \<and> last_played_ns (snd (PlayerStore_set clk i pls status (ps, h)) p) = snd (clk (i + j))))
   \<and> (\<forall>p. p \<notin> set pls \<longrightarrow>
         map_of (fst (PlayerStore_set clk i pls status (ps, h))) p = map_of ps p
       \<and> snd (PlayerStore_set clk i pls status (ps, h)) p = h p)"
proof (intro conjI ballI allI impI)
  fix p assume "p \<in> set pls"
  then show "map_of (fst (PlayerStore_set clk i pls status (ps, h))) p = Some status"
    by (rule PlayerStore_set_status)
next
  fix p assume "p \<in> set pls"
  then show "\<exists>j < length pls. pls ! j = p
          \<and> last_played (snd (PlayerStore_set clk i pls status (ps, h)) p) = fst (clk (i + j))
          \<and> last_played_ns (snd (PlayerStore_set clk i pls status (ps, h)) p) = snd (clk (i + j))"
    by (rule PlayerStore_set_stamp)
next
  fix p assume "p \<notin> set pls"
  then show "map_of (fst (PlayerStore_set clk i pls status (ps, h))) p = map_of ps p"
    by (simp add: PlayerStore_set_others)
next
  fix p assume "p \<notin> set pls"
  then show "snd (PlayerStore_set clk i pls status (ps, h)) p = h p"
    by (simp add: PlayerStore_set_others)
qed

theorem PlayerStore_set_moves_and_stamps_witness:
  "map_of (fst (PlayerStore_set (\<lambda>_. (5, 7)) 0 [0] IN_GAME (PlayerStore_init [0, 1], demo_heap))) 0
     = Some IN_GAME
   \<and> last_played (snd (PlayerStore_set (\<lambda>_. (5, 7)) 0 [0] IN_GAME
        (PlayerStore_init [0, 1], demo_heap)) 0) = 5
   \<and> map_of (fst (PlayerStore_set (\<lambda>_. (5, 7)) 0 [0] IN_GAME (PlayerStore_init [0, 1], demo_heap))) 1
     = Some WAITING"
  using PlayerStore_set_moves_and_stamps [of "[0]" "\<lambda>_. (5, 7)" 0 IN_GAME
      "PlayerStore_init [0, 1]" demo_heap]
  by (simp add: PlayerStore_init_def)

text \<open>
  C6 as stated fails: \<open>set([p], IN_GAME)\<close> at clock reading 5 changes
  \<open>last_played\<close> of the player from 0 to 5.
\<close>

theorem set_in_game_keeps_last_played_counterexample:
  "last_played (snd (PlayerStore_set (\<lambda>_. (5, 7)) 0 [0] IN_GAME
      (PlayerStore_init [0, 1], demo_heap)) 0) = 5
   \<and> last_played (demo_heap 0) = 0"
  by (simp add: PlayerStore_init_def demo_heap_def Player_init_def)

section \<open>Properties of MatchMakerServer.find\_players\<close>

lemma length_stride:
  "0 < k \<Longrightarrow> length xs = s * k \<Longrightarrow> length (stride k xs) = s"
proof (induction s arbitrary: xs)
  case 0
  then show ?case by simp
next
  case (Suc s)
  from Suc.prems obtain x xs' where xs: "xs = x # xs'"
    by (cases xs) auto
  with Suc.prems have "length xs' = s * k + (k - 1)" by simp
  then have "length (drop (k - 1) xs') = s * k" by simp
  from Suc.IH [OF Suc.prems(1) this] xs show ?case by simp
qed

lemma set_stride: "set (stride k xs) \<subseteq> set xs"
proof (induction k xs rule: stride.induct)
  case (1 k)
  then show ?case by simp
next
  case (2 k x xs)
  then show ?case using set_drop_subset [of "k - 1" xs] by auto
qed

lemma distinct_stride: "distinct xs \<Longrightarrow> distinct (stride k xs)"
proof (induction k xs rule: stride.induct)
  case (1 k)
  then show ?case by simp
next
  case (2 k x xs)
  have "set (stride k (drop (k - 1) xs)) \<subseteq> set xs"
    using set_stride [of k "drop (k - 1) xs"] set_drop_subset [of "k - 1" xs] by blast
  with 2 show ?case by auto
qed

lemma remove_players_distinct:
  "distinct pending \<Longrightarrow> distinct team \<Longrightarrow> set team \<subseteq> set pending \<Longrightarrow>
     remove_players pending team = Inr (filter (\<lambda>x. x \<notin> set team) pending)"
proof (induction team arbitrary: pending)
  case Nil
  then show ?case by simp
next
  case (Cons p team)
  have r: "remove1 p pending = filter (\<lambda>x. x \<noteq> p) pending"
    using Cons.prems(1)
    by (simp add: distinct_remove1_removeAll removeAll_filter_not_eq) (auto intro: filter_cong)
  have d: "distinct (remove1 p pending)" using Cons.prems(1) by simp
  have s: "set team \<subseteq> set (remove1 p pending)"
    using Cons.prems by auto
  have "remove_players (remove1 p pending) team
      = Inr (filter (\<lambda>x. x \<notin> set team) (remove1 p pending))"
    using Cons.IH [OF d _ s] Cons.prems(2) by simp
  moreover have "filter (\<lambda>x. x \<notin> set team) (remove1 p pending)
      = filter (\<lambda>x. x \<notin> set (p # team)) pending"
    unfolding r by (auto intro: filter_cong)
  ultimately show ?case using Cons.prems(3) by simp
qed

lemma length_filter_out:
  assumes "distinct xs" "distinct ys" "set ys \<subseteq> set xs"
  shows "length (filter (\<lambda>x. x \<notin> set ys) xs) = length xs - length ys"
proof -
  have "distinct (filter (\<lambda>x. x \<notin> set ys) xs)" using assms(1) by simp
  then have "length (filter (\<lambda>x. x \<notin> set ys) xs) = card (set xs - set ys)"
    by (metis distinct_card set_diff_eq set_filter)
  also have "\<dots> = card (set xs) - card (set ys)"
    using assms(3) by (simp add: card_Diff_subset)
  finally show ?thesis using assms(1,2) by (simp add: distinct_card)
qed

lemma form_teams_partition:
  "distinct pending \<Longrightarrow> length pending = s * k \<Longrightarrow>
     \<exists>formed. form_teams k pending = Inr formed \<and> length formed = k
        \<and> (\<forall>team \<in> set formed. length team = s)
        \<and> distinct (concat formed) \<and> set (concat formed) = set pending"
proof (induction k arbitrary: pending)
  case 0
  then show ?case by simp
next
  case (Suc k)
  define team where "team = stride (Suc k) pending"
  define remaining where "remaining = filter (\<lambda>x. x \<notin> set team) pending"
  have lt: "length team = s"
    unfolding team_def using Suc.prems(2) by (intro length_stride) simp_all
  have dt: "distinct team" unfolding team_def using Suc.prems(1) by (rule distinct_stride)
  have st: "set team \<subseteq> set pending" unfolding team_def by (rule set_stride)
  have rm: "remove_players pending team = Inr remaining"
    unfolding remaining_def using Suc.prems(1) dt st by (rule remove_players_distinct)
  have dr: "distinct remaining" unfolding remaining_def using Suc.prems(1) by simp
  have lr: "length remaining = s * k"
    unfolding remaining_def using length_filter_out [OF Suc.prems(1) dt st] lt Suc.prems(2)
    by simp
  from Suc.IH [OF dr lr] obtain formed where
    f: "form_teams k remaining = Inr formed" "length formed = k"
       "\<forall>team \<in> set formed. length team = s"
       "distinct (concat formed)" "set (concat formed) = set remaining"
    by blast
  have run: "form_teams (Suc k) pending = Inr (team # formed)"
    using rm f(1) by (simp add: team_def Let_def)
  have disj: "set team \<inter> set (concat formed) = {}"
    using f(5) by (auto simp: remaining_def)
  have un: "set (concat (team # formed)) = set pending"
    using f(5) st by (auto simp: remaining_def)
  show ?case
    by (rule exI [of _ "team # formed"]) (use run f lt dt disj un in auto)
qed

lemma hd_insort_key:
  "hd (insort_key f x ys) = (if ys = [] then x else if f x \<le> f (hd ys) then x else hd ys)"
  by (cases ys) auto

lemma hd_sort_key_arg_min: "xs \<noteq> [] \<Longrightarrow> hd (sort_key f xs) = arg_min_list f xs"
proof (induction f xs rule: arg_min_list.induct)
  case (1 f x)
  then show ?case by simp
next
  case (2 f x y zs)
  have ne: "sort_key f (y # zs) \<noteq> []"
    by (metis length_sort list.size(3) list.distinct(1) length_0_conv)
  from 2 have "hd (sort_key f (y # zs)) = arg_min_list f (y # zs)" by simp
  with ne show ?case
    by (simp add: hd_insort_key Let_def del: sort_key_simps) (simp add: hd_insort_key)
next
  case (3 f)
  then show ?case by simp
qed

lemma PlayerStore_get_distinct:
  "distinct (map fst ps) \<Longrightarrow> distinct (PlayerStore_get ps status)"
  unfolding PlayerStore_get_def by (rule distinct_map_filter)

lemma find_players_forms:
  assumes d: "distinct (map fst ps)"
    and s1: "1 \<le> num_per_teams" and t1: "1 \<le> num_teams"
    and enough: "num_per_teams * num_teams \<le> int (length (PlayerStore_get ps WAITING))"
  shows "\<exists>formed. find_players h ps num_per_teams num_teams = Inr (Some formed)
      \<and> int (length formed) = num_teams
      \<and> (\<forall>team \<in> set formed. int (length team) = num_per_teams)
      \<and> distinct (concat formed)
      \<and> set (concat formed) \<subseteq> set (PlayerStore_get ps WAITING)
      \<and> longest_waiting h ps \<in> set (concat formed)"
proof -
  define w where "w = PlayerStore_get ps WAITING"
  define waiting where "waiting = sort_key (\<lambda>x. last_played (h x)) w"
  define n where "n = num_per_teams * num_teams"
  have n1: "1 \<le> n"
  proof -
    have "1 * 1 \<le> num_per_teams * num_teams"
      using s1 t1 by (intro mult_mono) simp_all
    then show ?thesis by (simp add: n_def)
  qed
  have dw: "distinct waiting" unfolding waiting_def w_def
    using d by (simp add: PlayerStore_get_distinct)
  have lw: "n \<le> int (length waiting)" using enough by (simp add: waiting_def w_def n_def)
  with n1 have wne: "waiting \<noteq> []" by auto
  then obtain first_player waiting_rest where wc: "waiting = first_player # waiting_rest"
    by (cases waiting) auto
  have w_ne: "w \<noteq> []" using wne by (auto simp: waiting_def)
  have anchor: "first_player = longest_waiting h ps"
    using hd_sort_key_arg_min [OF w_ne, of "\<lambda>x. last_played (h x)"] wc
    by (simp add: longest_waiting_def waiting_def w_def)
  define by_mmr where
    "by_mmr = sort_key (\<lambda>x. \<bar>elo (h x) - elo (h first_player)\<bar>) waiting_rest"
  define pending where "pending = [first_player] @ slice_to by_mmr (n - 1)"
  define by_elo where "by_elo = sort_key (\<lambda>x. elo (h x)) pending"
  have sl: "slice_to by_mmr (n - 1) = take (nat (n - 1)) by_mmr"
    using n1 by (simp add: slice_to_def)
  have lrest: "nat (n - 1) \<le> length by_mmr"
    using lw wc by (simp add: by_mmr_def)
  have lp: "length pending = nat n"
    using lrest n1 by (simp add: pending_def sl)
  have ss: "set (slice_to by_mmr (n - 1)) \<subseteq> set waiting_rest"
    unfolding sl using set_take_subset [of "nat (n - 1)" by_mmr] by (simp add: by_mmr_def)
  have ds: "distinct (slice_to by_mmr (n - 1))"
    unfolding sl using dw by (simp add: by_mmr_def wc)
  have sp: "set pending \<subseteq> set waiting"
    using ss by (auto simp: pending_def wc)
  have dp: "distinct pending"
    using dw ss ds by (auto simp: pending_def wc)
  have le: "length by_elo = nat num_per_teams * nat num_teams"
    using lp s1 t1 by (simp add: by_elo_def n_def nat_mult_distrib)
  have de: "distinct by_elo" using dp by (simp add: by_elo_def)
  from form_teams_partition [OF de le] obtain formed where
    f: "form_teams (nat num_teams) by_elo = Inr formed" "length formed = nat num_teams"
       "\<forall>team \<in> set formed. length team = nat num_per_teams"
       "distinct (concat formed)" "set (concat formed) = set by_elo"
    by blast
  have nl2: "\<not> 1 + int (length waiting_rest) < num_per_teams * num_teams"
    using lw wc by (simp add: n_def)
  have "find_players h ps num_per_teams num_teams
      = (case form_teams (nat num_teams) by_elo of
           Inl e \<Rightarrow> Inl e | Inr formed \<Rightarrow> Inr (Some formed))"
    using nl2 wc
    by (simp add: find_players_def Let_def by_elo_def pending_def by_mmr_def
          waiting_def w_def n_def)
  then have run: "find_players h ps num_per_teams num_teams = Inr (Some formed)"
    by (simp add: f(1))
  have sub: "set (concat formed) \<subseteq> set w"
  proof -
    have "set waiting = set w" unfolding waiting_def by (rule set_sort)
    with sp show ?thesis unfolding f(5) by (simp add: by_elo_def)
  qed
  have sbe: "set by_elo = set pending" unfolding by_elo_def by (rule set_sort)
  have "first_player \<in> set pending" by (simp add: pending_def)
  then have mem: "longest_waiting h ps \<in> set (concat formed)"
    unfolding f(5) sbe anchor .
  show ?thesis
    by (rule exI [of _ formed]) (use run f t1 s1 sub mem in \<open>auto simp: w_def\<close>)
qed

text \<open>
  C3 (as the code has it). For a team size and a team number of at least 1 and a
  store (a dictionary, so its keys are distinct) with at least
  \<open>teamSize * teamNumber\<close> waiting players, \<open>find_players\<close> returns exactly
  \<open>teamNumber\<close> teams of exactly \<open>teamSize\<close> players each, all of them waiting
  players, no player twice in a team or in two teams, and the longest-waiting
  player is on one of the teams.
\<close>

theorem find_players_forms_teams:
  assumes d: "distinct (map fst ps)"
    and s1: "1 \<le> num_per_teams" and t1: "1 \<le> num_teams"
    and enough: "num_per_teams * num_teams \<le> int (length (PlayerStore_get ps WAITING))"
  shows "\<exists>formed. find_players h ps num_per_teams num_teams = Inr (Some formed)
      \<and> int (length formed) = num_teams
      \<and> (\<forall>team \<in> set formed. int (length team) = num_per_teams)
      \<and> distinct (concat formed)
      \<and> set (concat formed) \<subseteq> set (PlayerStore_get ps WAITING)
      \<and> longest_waiting h ps \<in> set (concat formed)"
  using d s1 t1 enough by (rule find_players_forms)

lemma scenario_b_waiting: "PlayerStore_get scenario_b_store WAITING = [10, 11, 12, 13]"
  by (simp add: scenario_b_store_def PlayerStore_init_def PlayerStore_get_def)

lemma scenario_b_find:
  "find_players scenario_b_heap scenario_b_store 2 2 = Inr (Some [[10, 12], [11, 13]])"
  by (simp add: find_players_def scenario_b_waiting scenario_b_heap_def Player_init_def
      slice_to_def Let_def numeral_2_eq_2)

lemma scenario_b_degenerate:
  "find_players scenario_b_heap scenario_b_store 0 1 = Inr (Some [[10, 11, 12]])"
  by (simp add: find_players_def scenario_b_waiting scenario_b_heap_def Player_init_def
      slice_to_def Let_def)

lemma fold_update_distinct:
  "distinct (map fst d) \<Longrightarrow> distinct (map fst (fold (\<lambda>p d. AList.update p v d) ps d))"
  by (induction ps arbitrary: d) (simp_all add: distinct_update)

lemma PlayerStore_init_distinct: "distinct (map fst (PlayerStore_init ps))"
  unfolding PlayerStore_init_def by (rule fold_update_distinct) simp

lemma scenario_b_longest: "longest_waiting scenario_b_heap scenario_b_store = 10"
  by (simp add: longest_waiting_def scenario_b_waiting scenario_b_heap_def Player_init_def)

theorem find_players_forms_teams_witness:
  "find_players scenario_b_heap scenario_b_store 2 2 = Inr (Some [[10, 12], [11, 13]])
   \<and> longest_waiting scenario_b_heap scenario_b_store \<in> set (concat [[10, 12], [11, 13]])
   \<and> distinct (map fst scenario_b_store)
   \<and> (2::int) * 2 \<le> int (length (PlayerStore_get scenario_b_store WAITING))"
proof -
  have d: "distinct (map fst scenario_b_store)"
    unfolding scenario_b_store_def by (rule PlayerStore_init_distinct)
  have e: "(2::int) * 2 \<le> int (length (PlayerStore_get scenario_b_store WAITING))"
    by (simp add: scenario_b_waiting)
  from find_players_forms_teams [OF d _ _ e, of scenario_b_heap] obtain formed where
    "find_players scenario_b_heap scenario_b_store 2 2 = Inr (Some formed)"
    "longest_waiting scenario_b_heap scenario_b_store \<in> set (concat formed)"
    by auto
  then show ?thesis using d e by (simp add: scenario_b_find)
qed

text \<open>
  C3 as stated fails for a team size of 0: with four waiting players and one team
  of size 0 asked for, \<open>find_players\<close> returns one team of three players.
\<close>

theorem find_players_team_size_counterexample:
  "find_players scenario_b_heap scenario_b_store 0 1 = Inr (Some [[10, 11, 12]])
   \<and> (0::int) * 1 \<le> int (length (PlayerStore_get scenario_b_store WAITING))
   \<and> int (length [10, 11, 12 :: nat]) \<noteq> 0"
  by (simp add: scenario_b_degenerate)

section \<open>The loop of MatchMakerServer.run\<close>






section \<open>Division by zero in the strength average\<close>

lemma team_strength_error:
  "team_strength h g team = Inl e \<longleftrightarrow> e = ZeroDivisionError \<and> players team = []"
  by (auto simp: team_strength_def Let_def)

lemma strengths_error:
  "strengths h th g ts te = Inl e \<longleftrightarrow> e = ZeroDivisionError \<and> (\<exists>t \<in> set ts. players (th t) = [])"
proof (induction ts arbitrary: te)
  case Nil
  then show ?case by simp
next
  case (Cons t ts)
  show ?case
  proof (cases "team_strength h g (th t)")
    case (Inl e')
    then have "e' = ZeroDivisionError" "players (th t) = []"
      by (simp_all add: team_strength_error)
    with Inl show ?thesis by auto
  next
    case (Inr w)
    then have "players (th t) \<noteq> []"
      using team_strength_error [of h g "th t" ZeroDivisionError] by auto
    with Inr Cons.IH [of "AList.update t w te"] show ?thesis by simp
  qed
qed

lemma choices_error: "choices u population weights = Inl e \<Longrightarrow> e \<noteq> ZeroDivisionError"
  by (auto simp: choices_def Let_def split: if_splits)

lemma draw_teams_error: "draw_teams us j n te res = Inl e \<Longrightarrow> e \<noteq> ZeroDivisionError"
proof (induction n arbitrary: j te res)
  case 0
  then show ?case by simp
next
  case (Suc n)
  show ?case
  proof (cases "choices (us j) (map fst te) (map snd te)")
    case (Inl e')
    with Suc.prems have "e' = e" by simp
    with Inl show ?thesis using choices_error by blast
  next
    case (Inr team)
    with Suc.prems Suc.IH show ?thesis by simp
  qed
qed

lemma compute_score_zero_division:
  "compute_score h g us th = Inl ZeroDivisionError \<longleftrightarrow> (\<exists>t \<in> set (teams g). players (th t) = [])"
proof (cases "strengths h th g (teams g) []")
  case (Inl e)
  then have "e = ZeroDivisionError" "\<exists>t \<in> set (teams g). players (th t) = []"
    using strengths_error [of h th g "teams g" "[]" e] by simp_all
  with Inl show ?thesis by (simp add: compute_score_def draw_order_def bind_err_def)
next
  case (Inr te)
  then have ne: "\<not> (\<exists>t \<in> set (teams g). players (th t) = [])"
    using strengths_error [of h th g "teams g" "[]" ZeroDivisionError] by simp
  have "compute_score h g us th \<noteq> Inl ZeroDivisionError"
  proof (cases "draw_teams us 0 (length (teams g)) te []")
    case (Inl e)
    then have "e \<noteq> ZeroDivisionError" by (rule draw_teams_error)
    with Inl Inr show ?thesis by (simp add: compute_score_def draw_order_def bind_err_def)
  next
    case r: (Inr results)
    with Inr show ?thesis by (simp add: compute_score_def draw_order_def bind_err_def)
  qed
  with ne show ?thesis by simp
qed

lemma new_teams_effect:
  "new_teams r pts th = (rs, th') \<Longrightarrow>
     rs = [r ..< r + length pts]
   \<and> (\<forall>i < length pts. th' (r + i) = Team_init (pts ! i))
   \<and> (\<forall>t. t < r \<longrightarrow> th' t = th t)"
proof (induction pts arbitrary: r th rs th')
  case Nil
  then show ?case by simp
next
  case (Cons ps pts)
  from Cons.prems obtain rs1 where
    n: "new_teams (r + 1) pts (th(r := Team_init ps)) = (rs1, th')" and rs: "rs = r # rs1"
    by (auto simp: Let_def split: prod.splits)
  note IH = Cons.IH [OF n]
  have a: "rs = [r ..< r + length (ps # pts)]"
    using IH rs by (simp add: upt_rec)
  have b: "\<forall>i < length (ps # pts). th' (r + i) = Team_init ((ps # pts) ! i)"
  proof (intro allI impI)
    fix i assume i: "i < length (ps # pts)"
    show "th' (r + i) = Team_init ((ps # pts) ! i)"
    proof (cases i)
      case 0
      have "th' r = (th(r := Team_init ps)) r" using IH by simp
      with 0 show ?thesis by simp
    next
      case (Suc i')
      with i IH have "th' (r + 1 + i') = Team_init (pts ! i')" by simp
      with Suc show ?thesis by simp
    qed
  qed
  have c: "\<forall>t. t < r \<longrightarrow> th' t = th t" using IH by simp
  from a b c show ?case by blast
qed

lemma find_players_Some_enough:
  "find_players h ps n t = Inr (Some formed) \<Longrightarrow> n * t \<le> int (length (PlayerStore_get ps WAITING))"
  by (auto simp: find_players_def Let_def split: if_splits)

lemma try_create_game_created:
  assumes d: "distinct (map fst (store s))"
    and s1: "1 \<le> team_size s" and t1: "1 \<le> team_number s"
    and create: "try_create_game clk s = Inr s'"
    and new: "active_games s' = active_games s @ [(game, tsk)]"
  shows "\<forall>t \<in> set (teams game). players (teap s' t) \<noteq> []"
proof -
  from create new obtain formed where
    f: "find_players (pheap s) (store s) (team_size s) (team_number s) = Inr (Some formed)"
    by (auto simp: try_create_game_def split: sum.splits option.splits)
  from find_players_forms [OF d s1 t1 find_players_Some_enough [OF f], of "pheap s"] f
  have len: "\<forall>team \<in> set formed. int (length team) = team_size s" by auto
  obtain trefs th where nt: "new_teams (next_team s) formed (teap s) = (trefs, th)"
    by (cases "new_teams (next_team s) formed (teap s)")
  note N = new_teams_effect [OF nt]
  from create f nt have s': "teap s' = th"
    "active_games s' = active_games s
        @ [(Game_init trefs (server_nudge s) (server_god_boost s), Pending)]"
    by (auto simp: try_create_game_def Let_def split: prod.splits)
  with new have g: "teams game = trefs" by (auto simp: Game_init_def)
  show ?thesis
  proof
    fix t assume "t \<in> set (teams game)"
    with g N have "next_team s \<le> t" "t < next_team s + length formed" by simp_all
    then have "t - next_team s < length formed" "t = next_team s + (t - next_team s)"
      by simp_all
    then obtain i where i: "i < length formed" "t = next_team s + i" by blast
    with N have "th t = Team_init (formed ! i)" by simp
    moreover have "formed ! i \<noteq> []"
      using len i(1) s1 by (auto simp: all_set_conv_all_nth)
    ultimately show "players (teap s' t) \<noteq> []"
      by (simp add: s' Team_init_def)
  qed
qed

text \<open>
  C5 (as the code has it). The constructor checks nothing, so no configuration is
  rejected at startup. The strength average of \<open>compute_score\<close> divides by zero
  exactly when a team of the game has an empty roster, and for a team size and a
  team number of at least 1 every team of a game that \<open>try_create_game\<close> creates has
  a player: on every team store with these rosters, \<open>compute_score\<close> of that game
  does not raise \<open>ZeroDivisionError\<close>.
\<close>

theorem created_game_never_divides_by_zero:
  assumes "distinct (map fst (store s))"
    and "1 \<le> team_size s" and "1 \<le> team_number s"
    and "try_create_game clk s = Inr s'"
    and "active_games s' = active_games s @ [(game, tsk)]"
    and "\<forall>t \<in> set (teams game). players (th t) = players (teap s' t)"
  shows "compute_score h game us th \<noteq> Inl ZeroDivisionError"
proof -
  have "\<forall>t \<in> set (teams game). players (teap s' t) \<noteq> []"
    using assms(1-5) by (rule try_create_game_created)
  with assms(6) have "\<not> (\<exists>t \<in> set (teams game). players (th t) = [])" by simp
  then show ?thesis by (simp add: compute_score_zero_division)
qed

lemma zero_find: "find_players pair_heap (PlayerStore_init [10, 11]) 0 2 = Inr (Some [[10], []])"
  by (simp add: find_players_def PlayerStore_init_def PlayerStore_get_def pair_heap_def
      Player_init_def slice_to_def Let_def numeral_2_eq_2)

text \<open>
  C5 as stated fails: the constructor accepts a team size of 0; with two waiting
  players and two teams asked for, the first tick creates a game whose second team
  is empty, and \<open>compute_score\<close> of that game raises \<open>ZeroDivisionError\<close>.
\<close>

theorem zero_team_size_counterexample:
  "team_size zero_server = 0
   \<and> map_sum id
        (\<lambda>s'. map (\<lambda>item. compute_score (pheap s') (fst item) (\<lambda>_. 0) (teap s'))
                  (active_games s'))
        (try_create_game (\<lambda>_. (5, 5)) zero_server)
       = Inr [Inl ZeroDivisionError]"
  by (simp add: try_create_game_def zero_server_def MatchMakerServer_init_def pair_settings_def
     zero_find Let_def Game_players_def Game_init_def Team_init_def
     compute_score_def draw_order_def bind_err_def team_strength_def truthy_def)

lemma pair_store: "PlayerStore_init [10, 11] = [(10, WAITING), (11, WAITING)]"
  by (simp add: PlayerStore_init_def)

lemma pair_find:
  "find_players pair_heap [(10, WAITING), (11, WAITING)] 1 2 = Inr (Some [[10], [11]])"
  by (simp add: find_players_def PlayerStore_get_def pair_heap_def
      Player_init_def slice_to_def Let_def numeral_2_eq_2)

lemma pair_create: "try_create_game (create_clock steady_env) pair_server = Inr pending_server"
  by (simp add: try_create_game_def pending_server_def pair_server_def MatchMakerServer_init_def
     pair_settings_def pair_store pair_find Let_def Game_players_def Game_init_def Team_init_def
     steady_env_def pair_game_def)

theorem created_game_never_divides_by_zero_witness:
  "try_create_game (create_clock steady_env) pair_server = Inr pending_server
   \<and> active_games pending_server = active_games pair_server @ [(pair_game, Pending)]
   \<and> 1 \<le> team_size pair_server \<and> 1 \<le> team_number pair_server
   \<and> compute_score (pheap pending_server) pair_game (\<lambda>_. 0) (teap pending_server)
         \<noteq> Inl ZeroDivisionError"
proof -
  have d: "distinct (map fst (store pair_server))"
    by (simp add: pair_server_def MatchMakerServer_init_def PlayerStore_init_distinct)
  have sz: "1 \<le> team_size pair_server" "1 \<le> team_number pair_server"
    by (simp_all add: pair_server_def MatchMakerServer_init_def pair_settings_def)
  have a: "active_games pending_server = active_games pair_server @ [(pair_game, Pending)]"
    by (simp add: pending_server_def pair_server_def MatchMakerServer_init_def)
  from created_game_never_divides_by_zero [OF d sz pair_create a,
      of "teap pending_server" "pheap pending_server" "\<lambda>_. 0"]
  have "compute_score (pheap pending_server) pair_game (\<lambda>_. 0) (teap pending_server)
         \<noteq> Inl ZeroDivisionError"
    by simp
  with pair_create a sz show ?thesis by simp
qed

section \<open>The first ticks of the two-player server\<close>








section \<open>When run stops\<close>




section \<open>try\_create\_game with too few waiting players\<close>






section \<open>Games on which compute\_score and update\_elo return\<close>

lemma update_fresh: "k \<notin> fst ` set al \<Longrightarrow> AList.update k v al = al @ [(k, v)]"
  by (induction al) auto

lemma strengths_returns:
  "\<forall>t \<in> set ts. team_strength h g (th t) = Inr (w t) \<Longrightarrow> distinct ts \<Longrightarrow>
   set ts \<inter> fst ` set te = {} \<Longrightarrow>
   strengths h th g ts te = Inr (te @ map (\<lambda>t. (t, w t)) ts)"
proof (induction ts arbitrary: te)
  case Nil
  then show ?case by simp
next
  case (Cons t ts)
  have fresh: "t \<notin> fst ` set te" using Cons.prems(3) by auto
  have "set ts \<inter> fst ` set (te @ [(t, w t)]) = {}"
    using Cons.prems(2,3) by auto
  with Cons show ?case by (simp add: update_fresh [OF fresh])
qed

lemma length_accumulate_from: "length (accumulate_from a ws) = length ws"
  by (induction ws arbitrary: a) auto

lemma last_accumulate_from: "ws \<noteq> [] \<Longrightarrow> last (accumulate_from a ws) = a + sum_list ws"
proof (induction ws arbitrary: a)
  case Nil
  then show ?case by simp
next
  case (Cons x ws)
  then show ?case by (cases ws) (auto simp: algebra_simps)
qed

lemma length_accumulate: "length (accumulate ws) = length ws"
  by (cases ws) (auto simp: length_accumulate_from)

lemma accumulate_from_Nil: "accumulate_from a ws = [] \<longleftrightarrow> ws = []"
  by (cases ws) auto

lemma last_accumulate: "ws \<noteq> [] \<Longrightarrow> last (accumulate ws) = sum_list ws"
  by (cases ws) (auto simp: last_accumulate_from accumulate_from_Nil)

lemma choices_returns:
  assumes "length population = length weights" "weights \<noteq> []" "0 < sum_list weights"
  shows "\<exists>t. choices u population weights = Inr t"
proof -
  have "accumulate weights \<noteq> []"
    using assms(2) length_accumulate [of weights] by auto
  then show ?thesis
    using assms by (simp add: choices_def Let_def length_accumulate last_accumulate)
qed

lemma sum_list_pos_all: "xs \<noteq> [] \<Longrightarrow> \<forall>x \<in> set xs. (0::real) < x \<Longrightarrow> 0 < sum_list xs"
  by (induction xs) (auto intro: add_pos_nonneg sum_list_nonneg less_imp_le)

lemma length_delete_distinct:
  "distinct (map fst al) \<Longrightarrow> k \<in> fst ` set al \<Longrightarrow> length (AList.delete k al) = length al - 1"
proof (induction al)
  case Nil
  then show ?case by simp
next
  case (Cons a al)
  show ?case
  proof (cases "fst a = k")
    case True
    with Cons.prems(1) have "k \<notin> fst ` set al" by auto
    with True show ?thesis by simp
  next
    case False
    with Cons have "length (AList.delete k al) = length al - 1" "al \<noteq> []" by auto
    with False show ?thesis by (cases al) auto
  qed
qed

lemma draw_teams_returns:
  "distinct (map fst te) \<Longrightarrow> n \<le> length te \<Longrightarrow> \<forall>e \<in> set te. 0 < snd e \<Longrightarrow>
     \<exists>results. draw_teams us j n te res = Inr results"
proof (induction n arbitrary: te j res)
  case 0
  then show ?case by simp
next
  case (Suc n)
  have ne: "map snd te \<noteq> []" using Suc.prems(2) by auto
  have "0 < sum_list (map snd te)"
    using ne Suc.prems(3) by (intro sum_list_pos_all) auto
  with ne obtain team where c: "choices (us j) (map fst te) (map snd te) = Inr team"
    using choices_returns [of "map fst te" "map snd te" "us j"] by auto
  have mem: "team \<in> fst ` set te" using choices_member [OF c] by simp
  have d: "distinct (map fst (AList.delete team te))"
    using Suc.prems(1) by (rule distinct_delete)
  have l: "n \<le> length (AList.delete team te)"
    using length_delete_distinct [OF Suc.prems(1) mem] Suc.prems(2) by simp
  have p: "\<forall>e \<in> set (AList.delete team te). 0 < snd e"
    using Suc.prems(3) by (auto simp: AList.delete_eq)
  from Suc.IH [OF d l p] c show ?case by simp
qed

lemma compute_score_returns:
  assumes "distinct (teams g)"
    and "\<forall>t \<in> set (teams g). team_strength h g (th t) = Inr (w t) \<and> 0 < w t"
  shows "\<exists>th'. compute_score h g us th = Inr th'"
proof -
  have s: "strengths h th g (teams g) [] = Inr (map (\<lambda>t. (t, w t)) (teams g))"
    using strengths_returns [of "teams g" h g th w "[]"] assms by simp
  have "distinct (map fst (map (\<lambda>t. (t, w t)) (teams g)))"
    using assms(1) by (simp add: o_def)
  moreover have "\<forall>e \<in> set (map (\<lambda>t. (t, w t)) (teams g)). 0 < snd e"
    using assms(2) by auto
  ultimately obtain results where
    "draw_teams us 0 (length (teams g)) (map (\<lambda>t. (t, w t)) (teams g)) [] = Inr results"
    using draw_teams_returns [of "map (\<lambda>t. (t, w t)) (teams g)" "length (teams g)" us 0 "[]"]
    by auto
  with s show ?thesis by (simp add: compute_score_def draw_order_def bind_err_def)
qed

lemma compare_returns:
  "score a \<noteq> None \<Longrightarrow> score b \<noteq> None \<Longrightarrow> \<exists>outcome. compare a b = Inr outcome"
  by (auto simp: compare_def split: option.splits)

lemma rate_against_returns:
  "score (th t) \<noteq> None \<Longrightarrow> \<forall>opp \<in> set opps. score (th (fst opp)) \<noteq> None \<Longrightarrow>
     \<exists>r. rate_against th k t p opps s = Inr r"
proof (induction opps arbitrary: s)
  case Nil
  then show ?case by simp
next
  case (Cons opp opps)
  obtain t' q where opp: "opp = (t', q)" by (cases opp)
  obtain h d where s: "s = (h, d)" by (cases s)
  from Cons.prems opp obtain outcome where "compare (th t) (th t') = Inr outcome"
    using compare_returns [of "th t" "th t'"] by auto
  with Cons.IH Cons.prems show ?case by (simp add: opp s Let_def)
qed

lemma Game_players_teams: "tp \<in> set (Game_players th g ignore) \<Longrightarrow> fst tp \<in> set (teams g)"
  by (auto simp: Game_players_def)

lemma collect_deltas_returns:
  "\<forall>t \<in> set (teams g). score (th t) \<noteq> None \<Longrightarrow> \<forall>tp \<in> set ps. fst tp \<in> set (teams g) \<Longrightarrow>
     \<exists>r. collect_deltas th k g ps s = Inr r"
proof (induction ps arbitrary: s)
  case Nil
  then show ?case by simp
next
  case (Cons tp ps)
  obtain t p where tp: "tp = (t, p)" by (cases tp)
  have "score (th t) \<noteq> None" using Cons.prems tp by auto
  moreover have "\<forall>opp \<in> set (Game_players th g (Some t)). score (th (fst opp)) \<noteq> None"
    using Cons.prems(1) Game_players_teams by blast
  ultimately obtain r where "rate_against th k t p (Game_players th g (Some t)) s = Inr r"
    using rate_against_returns by blast
  with Cons.IH [of r] Cons.prems show ?case by (simp add: tp bind_err_def)
qed

lemma apply_deltas_returns:
  "nonempty_entries d \<Longrightarrow> \<exists>h'. apply_deltas ng rs j d h = Inr h'"
proof (induction d arbitrary: j h)
  case Nil
  then show ?case by simp
next
  case (Cons e d)
  obtain p ds where e: "e = (p, ds)" by (cases e)
  with Cons.prems have "ds \<noteq> []" "nonempty_entries d"
    by (simp_all add: nonempty_entries_def)
  with Cons.IH show ?case by (simp add: e Let_def)
qed

lemma update_elo_returns:
  assumes "\<forall>t \<in> set (teams g). score (th t) \<noteq> None"
  shows "\<exists>h'. update_elo th g k rs h = Inr h'"
proof -
  have "\<forall>tp \<in> set (Game_players th g None). fst tp \<in> set (teams g)"
    using Game_players_teams by blast
  with assms obtain r where
    c: "collect_deltas th k g (Game_players th g None) (h, []) = Inr r"
    using collect_deltas_returns by blast
  obtain h1 d where r: "r = (h1, d)" by (cases r)
  have "nonempty_entries d"
    using collect_deltas_effect [OF c [unfolded r]] by (simp add: nonempty_entries_def)
  then obtain h' where "apply_deltas (nudge g) rs 0 d h1 = Inr h'"
    using apply_deltas_returns by blast
  with c r show ?thesis by (simp add: update_elo_def bind_err_def)
qed

end
